theory Spec2Isabelle
  imports Main "HOL-Library.Char_ord" "HOL-Library.List_Lexorder"
begin

section \<open>Python values used by BoggleSolver.py\<close>

text \<open>
  The exceptions the program can raise. A function that can raise returns
  \<open>error + 'a\<close>, with \<open>Inl\<close> for the exception.
\<close>

datatype error = IOError string | AssertionError | KeyError | IndexError

text \<open>
  Python sequence subscripts are integers; a negative subscript counts from the end and a
  subscript outside \<open>[-len, len)\<close> raises IndexError.
\<close>

definition py_index :: "'a list \<Rightarrow> int \<Rightarrow> nat option" where
  "py_index xs i =
     (if 0 \<le> i \<and> i < int (length xs) then Some (nat i)
      else if - int (length xs) \<le> i \<and> i < 0 then Some (nat (i + int (length xs)))
      else None)"

definition getitem :: "'a list \<Rightarrow> int \<Rightarrow> error + 'a" where
  "getitem xs i = (case py_index xs i of None \<Rightarrow> Inl IndexError | Some j \<Rightarrow> Inr (xs ! j))"

definition setitem :: "'a list \<Rightarrow> int \<Rightarrow> 'a \<Rightarrow> error + 'a list" where
  "setitem xs i v = (case py_index xs i of None \<Rightarrow> Inl IndexError | Some j \<Rightarrow> Inr (xs[j := v]))"

text \<open>
  Strings are Python 2 byte strings: lists of 8-bit characters, compared byte by byte
  (the order of \<open>Char_ord\<close> and \<open>List_Lexorder\<close>).
\<close>

definition isspace :: "char \<Rightarrow> bool" where
  "isspace c \<longleftrightarrow> c \<in> {CHR '' '', CHR 0x09, CHR 0x0A, CHR 0x0B, CHR 0x0C, CHR 0x0D}"

definition strip :: "string \<Rightarrow> string" where
  "strip s = rev (dropWhile isspace (rev (dropWhile isspace s)))"

definition startswith :: "string \<Rightarrow> string \<Rightarrow> bool" where
  "startswith word p \<longleftrightarrow> take (length p) word = p"

text \<open>Iterating over an open text file yields its lines, each with its newline.\<close>

fun file_lines :: "string \<Rightarrow> string list" where
  "file_lines [] = []"
| "file_lines (c # cs) =
     (if c = CHR 0x0A then [c] # file_lines cs
      else (case file_lines cs of [] \<Rightarrow> [[c]] | l # ls \<Rightarrow> (c # l) # ls))"

text \<open>
  The part of the operating system the program sees: the regular files and their
  contents, which paths can be opened for writing, \<open>os.path.join\<close>, and the constant
  \<open>DATA_DIR\<close> (computed from the location of the script).
\<close>

record os_state =
  files :: "string \<rightharpoonup> string"
  writable :: "string \<Rightarrow> bool"
  path_join :: "string \<Rightarrow> string \<Rightarrow> string"
  DATA_DIR :: string

definition isfile :: "os_state \<Rightarrow> string \<Rightarrow> bool" where
  "isfile os p \<longleftrightarrow> files os p \<noteq> None"

section \<open>check_input_args\<close>

text \<open>
  Each argument is looked up as given, then in the data directory. The failed
  \<open>assert\<close> is caught and turned into an IOError.
\<close>

definition check_input_args :: "os_state \<Rightarrow> string \<Rightarrow> string \<Rightarrow> error + (string \<times> string)" where
  "check_input_args os dict_arg board_arg =
     (case (if \<not> isfile os dict_arg
            then (let dict_arg = path_join os (DATA_DIR os) dict_arg
                  in if isfile os dict_arg then Inr dict_arg
                     else Inl (IOError ''Dictionary file not found.''))
            else Inr dict_arg) of
        Inl e \<Rightarrow> Inl e
      | Inr dict_arg \<Rightarrow>
          (case (if \<not> isfile os board_arg
                 then (let board_arg = path_join os (DATA_DIR os) board_arg
                       in if isfile os board_arg then Inr board_arg
                          else Inl (IOError ''Board file not found.''))
                 else Inr board_arg) of
             Inl e \<Rightarrow> Inl e
           | Inr board_arg \<Rightarrow> Inr (dict_arg, board_arg)))"

section \<open>The table of moves\<close>

definition possible_moves :: "int list" where
  "possible_moves = [-5, -4, -3, -1, 1, 3, 4, 5]"

text \<open>
  \<open>index < 4 == 0\<close> is a chained comparison: \<open>index < 4 and 4 == 0\<close>; likewise
  \<open>index > 11 == 3\<close> is \<open>index > 11 and 11 == 3\<close>.
\<close>

definition get_possible_index_moves :: "int \<Rightarrow> int set" where
  "get_possible_index_moves index =
    (let index_moves = fold (\<lambda>move s. if index + move \<ge> 0 \<and> index + move \<le> 15
                                       then insert move s else s) possible_moves {};
         index_moves = (if index mod 4 = 0 then index_moves - {-5, -1, 3}
                        else if index mod 4 = 3 then index_moves - {-3, 1, 5}
                        else index_moves);
         index_moves = (if index < 4 \<and> (4::int) = 0 then index_moves - {-5, -4, -3}
                        else if index > 11 \<and> (11::int) = 3 then index_moves - {3, 4, 5}
                        else index_moves)
     in index_moves)"

text \<open>
  \<open>possible_index_moves\<close> is a dictionary of the class: it keeps what an earlier
  instance stored. \<open>_build_possible_index_moves\<close> overwrites the keys 0 to 15.
\<close>

definition build_possible_index_moves :: "(int \<rightharpoonup> int set) \<Rightarrow> (int \<rightharpoonup> int set)" where
  "build_possible_index_moves cache =
     fold (\<lambda>i d. d(i \<mapsto> get_possible_index_moves i)) [0..15] cache"

section \<open>load_board\<close>

definition lower :: "string \<Rightarrow> string" where
  "lower s = map (\<lambda>c. if CHR ''A'' \<le> c \<and> c \<le> CHR ''Z''
                       then char_of (of_char c + (32::nat)) else c) s"

definition isalpha :: "string \<Rightarrow> bool" where
  "isalpha s \<longleftrightarrow> s \<noteq> [] \<and>
     (\<forall>c\<in>set s. (CHR ''a'' \<le> c \<and> c \<le> CHR ''z'') \<or> (CHR ''A'' \<le> c \<and> c \<le> CHR ''Z''))"

text \<open>\<open>"".join(s.split())\<close> drops every whitespace character.\<close>

definition load_board :: "os_state \<Rightarrow> string \<Rightarrow> error + string" where
  "load_board os board_arg =
     (let board = (case files os board_arg of Some text \<Rightarrow> text | None \<Rightarrow> board_arg);
          board = lower board;
          board = filter (\<lambda>c. \<not> isspace c) board
      in if length board = 16 \<and> isalpha board then Inr board else Inl AssertionError)"

section \<open>load_dictionary\<close>

text \<open>
  The nested dictionary \<open>valid_words\<close>, and the local variables of
  \<open>_load_dictionary\<close> in the order the function computes them, each as a function of
  the board and of the text of the dictionary file.
\<close>

type_synonym valid_words = "char \<rightharpoonup> (char \<rightharpoonup> string list)"

definition alphabet :: string where
  "alphabet = ''abcdefghijklmnopqrstuvwxyz''"

definition dict_words :: "string \<Rightarrow> string list" where
  "dict_words text =
     filter (\<lambda>word. length word > 2 \<and> length word < 18) (map strip (file_lines text))"

definition missing_letters :: "string \<Rightarrow> string" where
  "missing_letters board =
     (let missing = filter (\<lambda>letter. letter \<notin> set board) alphabet
      in if CHR ''q'' \<notin> set missing \<and> CHR ''u'' \<in> set missing
         then remove1 (CHR ''u'') missing else missing)"

definition present_letters :: "string \<Rightarrow> string" where
  "present_letters board = filter (\<lambda>letter. letter \<notin> set (missing_letters board)) alphabet"

definition remove_words :: "string \<Rightarrow> string list \<Rightarrow> string set" where
  "remove_words board dws =
     fold (\<lambda>word rw.
             snd (fold (\<lambda>letter (has_missing_letters, rw).
                          if has_missing_letters then (has_missing_letters, rw)
                          else if letter \<in> set word then (True, insert word rw)
                          else (has_missing_letters, rw))
                       (missing_letters board) (False, rw)))
          dws {}"

definition unsorted_valid_words :: "string \<Rightarrow> string list \<Rightarrow> string list" where
  "unsorted_valid_words board dws = filter (\<lambda>word. word \<notin> remove_words board dws) dws"

definition empty_valid_words :: "string \<Rightarrow> valid_words" where
  "empty_valid_words letters =
     fold (\<lambda>first_word_letter vw.
             vw(first_word_letter \<mapsto>
                  fold (\<lambda>second_word_letter d. d(second_word_letter \<mapsto> [])) letters Map.empty))
          letters Map.empty"

text \<open>\<open>self.valid_words[word[0]][word[1]].append(word)\<close>, for each word in turn.\<close>

fun append_words :: "valid_words \<Rightarrow> string list \<Rightarrow> error + valid_words" where
  "append_words vw [] = Inr vw"
| "append_words vw (word # ws) =
     (case getitem word 0 of Inl e \<Rightarrow> Inl e | Inr c0 \<Rightarrow>
      (case vw c0 of None \<Rightarrow> Inl KeyError | Some d \<Rightarrow>
       (case getitem word 1 of Inl e \<Rightarrow> Inl e | Inr c1 \<Rightarrow>
        (case d c1 of None \<Rightarrow> Inl KeyError | Some l \<Rightarrow>
           append_words (vw(c0 \<mapsto> d(c1 \<mapsto> l @ [word]))) ws))))"

definition load_dictionary :: "os_state \<Rightarrow> string \<Rightarrow> string \<Rightarrow> error + valid_words" where
  "load_dictionary os dict_file board =
     (case files os dict_file of
        None \<Rightarrow> Inl AssertionError
      | Some text \<Rightarrow>
          append_words (empty_valid_words (present_letters board))
            (unsorted_valid_words board (dict_words text)))"

section \<open>find_words and solve_board\<close>

text \<open>The word spelled by a path: a cell holding q contributes "qu".\<close>

fun cur_word :: "string \<Rightarrow> int list \<Rightarrow> string \<Rightarrow> error + string" where
  "cur_word board [] w = Inr w"
| "cur_word board (pos # ps) w =
     (case getitem board pos of Inl e \<Rightarrow> Inl e | Inr c \<Rightarrow>
        cur_word board ps (let w = w @ [c] in if c = CHR ''q'' then w @ ''u'' else w))"

definition bucket :: "valid_words \<Rightarrow> string \<Rightarrow> error + string list" where
  "bucket vw w =
     (case getitem w 0 of Inl e \<Rightarrow> Inl e | Inr c0 \<Rightarrow>
      (case vw c0 of None \<Rightarrow> Inl KeyError | Some d \<Rightarrow>
       (case getitem w 1 of Inl e \<Rightarrow> Inl e | Inr c1 \<Rightarrow>
        (case d c1 of None \<Rightarrow> Inl KeyError | Some l \<Rightarrow> Inr l))))"

text \<open>
  The middle of \<open>_find_words\<close>: whether the path can start a word, and the set of found
  words after the path's own word has been tested.
\<close>

definition check_path ::
  "string \<Rightarrow> valid_words \<Rightarrow> int list \<Rightarrow> string set \<Rightarrow> error + (bool \<times> string set)" where
  "check_path board vw cur_path found_words =
     (if length cur_path = 1 then Inr (True, found_words)
      else
        (case cur_word board cur_path [] of Inl e \<Rightarrow> Inl e | Inr w \<Rightarrow>
         (case bucket vw w of Inl e \<Rightarrow> Inl e | Inr b \<Rightarrow>
            (let is_word_start = list_ex (\<lambda>word. startswith word w) b
             in if length w > 2
                then (case bucket vw w of Inl e \<Rightarrow> Inl e | Inr b' \<Rightarrow>
                        Inr (is_word_start, if w \<in> set b' then insert w found_words
                                            else found_words))
                else Inr (is_word_start, found_words)))))"

fun available_moves :: "bool list \<Rightarrow> int \<Rightarrow> int list \<Rightarrow> error + int list" where
  "available_moves used_letter index [] = Inr []"
| "available_moves used_letter index (move # ms) =
     (case getitem used_letter (index + move) of Inl e \<Rightarrow> Inl e | Inr u \<Rightarrow>
      (case available_moves used_letter index ms of Inl e \<Rightarrow> Inl e | Inr r \<Rightarrow>
         Inr (if \<not> u then move # r else r)))"

text \<open>
  \<open>iter\<close> is the order in which a set of moves is iterated. The set of found words is
  passed in and returned.
\<close>

function find_words ::
  "string \<Rightarrow> valid_words \<Rightarrow> (int \<rightharpoonup> int set) \<Rightarrow> (int set \<Rightarrow> int list) \<Rightarrow>
   int \<Rightarrow> bool list \<Rightarrow> int list \<Rightarrow> string set \<Rightarrow> error + string set" where
  "find_words board vw pim iter index used_letter_arg cur_path_arg found_words =
     (case setitem used_letter_arg index True of Inl e \<Rightarrow> Inl e | Inr used_letter \<Rightarrow>
      (case pim index of None \<Rightarrow> Inl KeyError | Some moves \<Rightarrow>
       (case available_moves used_letter index (iter moves) of Inl e \<Rightarrow> Inl e | Inr avail \<Rightarrow>
        (case check_path board vw (cur_path_arg @ [index]) found_words of Inl e \<Rightarrow> Inl e
         | Inr (is_word_start, found_words) \<Rightarrow>
             if is_word_start \<and> avail \<noteq> []
             then fold (\<lambda>move r. case r of Inl e \<Rightarrow> Inl e
                                  | Inr fw \<Rightarrow> find_words board vw pim iter (index + move)
                                               used_letter (cur_path_arg @ [index]) fw)
                       avail (Inr found_words)
             else Inr found_words))))"
  by pat_completeness auto
termination
proof (relation "measure (\<lambda>(board, vw, pim, iter, index, used, path, fw).
         length (filter Not (case setitem used index True of Inl e \<Rightarrow> used | Inr u \<Rightarrow> u)))",
       goal_cases)
  case 1
  show ?case by simp
next
  case (2 board vw pim iter index used path fw used' moves avail cp ws fw' move fw'')
  have unused: "m \<in> set a \<Longrightarrow> \<exists>j. py_index used' (index + m) = Some j \<and> \<not> used' ! j"
    if "available_moves used' index ms = Inr a" for ms a m
    using that
  proof (induction ms arbitrary: a)
    case Nil
    then show ?case by simp
  next
    case (Cons x xs)
    then show ?case
      by (auto simp: getitem_def split: sum.splits option.splits if_splits)
  qed
  from 2 obtain j where j: "py_index used' (index + move) = Some j" "\<not> used' ! j"
    using unused by blast
  then have lt: "j < length used'"
    by (auto simp: py_index_def split: if_splits)
  have "length (filter Not (used'[j := True])) < length (filter Not used')"
    using lt j(2)
  proof (induction used' arbitrary: j)
    case Nil
    then show ?case by simp
  next
    case (Cons b bs)
    show ?case
    proof (cases j)
      case 0
      with Cons.prems show ?thesis by (simp add: less_Suc_eq_le)
    next
      case (Suc n)
      with Cons.IH [of n] Cons.prems show ?thesis by auto
    qed
  qed
  with 2 j show ?case
    by (simp add: setitem_def)
qed

declare find_words.simps [simp del]

fun found_words_from ::
  "string \<Rightarrow> valid_words \<Rightarrow> (int \<rightharpoonup> int set) \<Rightarrow> (int set \<Rightarrow> int list) \<Rightarrow>
   int list \<Rightarrow> string set \<Rightarrow> error + string set" where
  "found_words_from board vw pim iter [] found_words = Inr found_words"
| "found_words_from board vw pim iter (i # is) found_words =
     (case find_words board vw pim iter i (replicate 16 False) [] found_words of
        Inl e \<Rightarrow> Inl e
      | Inr fw \<Rightarrow> found_words_from board vw pim iter is fw)"

text \<open>
  \<open>sorted(list(self.found_words))\<close>: \<open>list_of\<close> is the order in which the set of found
  words is iterated.
\<close>

definition out_words ::
  "string \<Rightarrow> valid_words \<Rightarrow> (int \<rightharpoonup> int set) \<Rightarrow> (int set \<Rightarrow> int list) \<Rightarrow>
   (string set \<Rightarrow> string list) \<Rightarrow> error + string list" where
  "out_words board vw pim iter list_of =
     (case found_words_from board vw pim iter [0..15] {} of
        Inl e \<Rightarrow> Inl e
      | Inr fw \<Rightarrow> Inr (sort (list_of fw)))"

text \<open>
  The end of \<open>_solve_board\<close> writes one line per word. Opening the output file can
  fail in the operating system; the model keeps the file name as the error's message.
\<close>

definition output_text :: "string list \<Rightarrow> string" where
  "output_text ws = concat (map (\<lambda>word. word @ [CHR 0x0A]) ws)"

definition solve_board ::
  "os_state \<Rightarrow> string \<Rightarrow> valid_words \<Rightarrow> (int \<rightharpoonup> int set) \<Rightarrow> (int set \<Rightarrow> int list) \<Rightarrow>
   (string set \<Rightarrow> string list) \<Rightarrow> string \<Rightarrow> error + os_state" where
  "solve_board os board vw pim iter list_of out_file =
     (case out_words board vw pim iter list_of of
        Inl e \<Rightarrow> Inl e
      | Inr ws \<Rightarrow>
          if writable os out_file
          then Inr (os\<lparr>files := (files os)(out_file \<mapsto> output_text ws)\<rparr>)
          else Inl (IOError out_file))"

text \<open>
  The constructor: it takes the dictionary of the class as an earlier instance left it
  and returns the file system and the dictionary of the class after the run.
\<close>

definition BoggleBoard ::
  "os_state \<Rightarrow> (int \<rightharpoonup> int set) \<Rightarrow> (int set \<Rightarrow> int list) \<Rightarrow> (string set \<Rightarrow> string list) \<Rightarrow>
   string \<Rightarrow> string \<Rightarrow> string \<Rightarrow> error + (os_state \<times> (int \<rightharpoonup> int set))" where
  "BoggleBoard os cache iter list_of dict_file board_arg out_file =
     (let possible_index_moves = build_possible_index_moves cache
      in case load_board os board_arg of
           Inl e \<Rightarrow> Inl e
         | Inr board \<Rightarrow>
             (case load_dictionary os dict_file board of
                Inl e \<Rightarrow> Inl e
              | Inr vw \<Rightarrow>
                  (case solve_board os board vw possible_index_moves iter list_of out_file of
                     Inl e \<Rightarrow> Inl e
                   | Inr os' \<Rightarrow> Inr (os', possible_index_moves))))"

text \<open>
  The script: the exit status and the file system it leaves, or the exception that ends
  it. The usage message printed on a wrong number of arguments is not modelled.
\<close>

definition main ::
  "os_state \<Rightarrow> (int \<rightharpoonup> int set) \<Rightarrow> (int set \<Rightarrow> int list) \<Rightarrow> (string set \<Rightarrow> string list) \<Rightarrow>
   string list \<Rightarrow> error + (int \<times> os_state)" where
  "main os cache iter list_of argv =
     (if length argv \<noteq> 4 then Inr (1, os)
      else
        (case check_input_args os (argv ! 1) (argv ! 2) of
           Inl e \<Rightarrow> Inl e
         | Inr (dict_arg, board_arg) \<Rightarrow>
             (case BoggleBoard os cache iter list_of dict_arg board_arg (argv ! 3) of
                Inl e \<Rightarrow> Inl e
              | Inr (os', cache') \<Rightarrow> Inr (0, os'))))"

section \<open>Notions of the specification\<close>

text \<open>
  The king-move neighbours of a cell of the 4x4 grid, with row \<open>pos div 4\<close> and column
  \<open>pos mod 4\<close>: the other cells whose row and column each differ by at most one.
\<close>

definition king_neighbors :: "int \<Rightarrow> int set" where
  "king_neighbors pos =
     {p \<in> {0..15}. p \<noteq> pos \<and> \<bar>p div 4 - pos div 4\<bar> \<le> 1 \<and> \<bar>p mod 4 - pos mod 4\<bar> \<le> 1}"

text \<open>
  The input the program is documented for: a board that passed the assertion of
  \<open>_load_board\<close> (16 letters, lowercased), and a dictionary file whose words use
  only the letters a to z.
\<close>

definition valid_board :: "string \<Rightarrow> bool" where
  "valid_board board \<longleftrightarrow> length board = 16 \<and> set board \<subseteq> set alphabet"

definition lowercase_words :: "string \<Rightarrow> bool" where
  "lowercase_words text \<longleftrightarrow> (\<forall>line\<in>set (file_lines text). set (strip line) \<subseteq> set alphabet)"

text \<open>
  Iterating over a Python set yields each element once, in an order the language does
  not fix: any function that lists every finite set without repetition.
\<close>

definition iterates :: "('a set \<Rightarrow> 'a list) \<Rightarrow> bool" where
  "iterates it \<longleftrightarrow> (\<forall>S. finite S \<longrightarrow> set (it S) = S \<and> distinct (it S))"

text \<open>The bucket of the index under two letters, and the words the index holds.\<close>

definition lookup2 :: "valid_words \<Rightarrow> char \<Rightarrow> char \<Rightarrow> string list option" where
  "lookup2 vw c0 c1 = (case vw c0 of None \<Rightarrow> None | Some d \<Rightarrow> d c1)"

definition in_index :: "valid_words \<Rightarrow> string \<Rightarrow> bool" where
  "in_index vw word \<longleftrightarrow> (\<exists>c0 c1 l. lookup2 vw c0 c1 = Some l \<and> word \<in> set l)"

text \<open>
  A word is traceable on a board when some simple path spells it: a non-empty sequence
  of cells without repetition, each next cell reached from the one before by a move of
  the table, a cell that holds q spelling "qu".
\<close>

definition cell :: "string \<Rightarrow> int \<Rightarrow> string" where
  "cell board pos = (if board ! nat pos = CHR ''q'' then ''qu'' else [board ! nat pos])"

definition spell :: "string \<Rightarrow> int list \<Rightarrow> string" where
  "spell board path = concat (map (cell board) path)"

definition adjacent :: "int \<Rightarrow> int \<Rightarrow> bool" where
  "adjacent a b \<longleftrightarrow> b - a \<in> get_possible_index_moves a"

definition simple_path :: "int list \<Rightarrow> bool" where
  "simple_path path \<longleftrightarrow>
     path \<noteq> [] \<and> set path \<subseteq> {0..15} \<and> distinct path \<and> successively adjacent path"

definition traceable :: "string \<Rightarrow> string \<Rightarrow> bool" where
  "traceable board word \<longleftrightarrow> (\<exists>path. simple_path path \<and> spell board path = word)"

text \<open>
  Two notions of the proofs. An index \<open>vw\<close> over the letters \<open>P\<close> holds the word list
  \<open>W\<close> when every bucket under two letters of \<open>P\<close> lists the words of \<open>W\<close> that
  start with them, and there is no other bucket. The words of \<open>D\<close> reachable from a
  path are those spelled by a simple path that extends it.
\<close>

definition indexes :: "valid_words \<Rightarrow> char set \<Rightarrow> string list \<Rightarrow> bool" where
  "indexes vw P W \<longleftrightarrow>
     (\<forall>c0 c1. lookup2 vw c0 c1 =
        (if c0 \<in> P \<and> c1 \<in> P then Some (filter (\<lambda>w. w ! 0 = c0 \<and> w ! 1 = c1) W) else None))"

definition reach :: "string \<Rightarrow> string set \<Rightarrow> int list \<Rightarrow> string set" where
  "reach board D p = {w \<in> D. \<exists>ext. simple_path (p @ ext) \<and> spell board (p @ ext) = w}"

text \<open>
  Example inputs: a board with a q and no u, a dictionary file in the data directory,
  and two dictionary files with a word outside a to z: a hyphen as second character, and
  a hyphen as third character.
\<close>

definition example_board :: string where
  "example_board = ''vvvvvqiavvvvvvvv''"

definition example_text :: string where
  "example_text = ''via\<newline>quiv\<newline>qua\<newline>vi\<newline>zebra\<newline>''"

definition example_os :: os_state where
  "example_os =
     \<lparr>files = [''data/dictionary.txt'' \<mapsto> example_text,
               ''board.txt'' \<mapsto> ''VVVV\<newline>VQIA\<newline>VVVV\<newline>VVVV\<newline>'',
               ''hyphen.txt'' \<mapsto> ''a-b\<newline>abc\<newline>'',
               ''trailing.txt'' \<mapsto> ''ab-\<newline>bcd\<newline>abc\<newline>''],
      writable = (\<lambda>p. True),
      path_join = (\<lambda>a b. a @ ''/'' @ b),
      DATA_DIR = ''data''\<rparr>"

text \<open>
  The standing assumptions of a search, and the invariant of the arguments of
  \<open>_find_words\<close>: 16 flags, set exactly at the cells of the path so far, and the path
  with the current cell is a simple path.
\<close>

definition search_setup ::
  "string \<Rightarrow> valid_words \<Rightarrow> string list \<Rightarrow> (int \<rightharpoonup> int set) \<Rightarrow> (int set \<Rightarrow> int list) \<Rightarrow> bool" where
  "search_setup board vw W pim iter \<longleftrightarrow>
     valid_board board \<and> indexes vw (set (present_letters board)) W \<and>
     (\<forall>w\<in>set W. 3 \<le> length w) \<and>
     (\<forall>i\<in>{0..15}. pim i = Some (get_possible_index_moves i)) \<and> iterates iter"

definition search_state :: "int \<Rightarrow> bool list \<Rightarrow> int list \<Rightarrow> bool" where
  "search_state index used path \<longleftrightarrow>
     length used = 16 \<and> simple_path (path @ [index]) \<and>
     (\<forall>i<16. used ! i \<longleftrightarrow> int i \<in> set path)"

text \<open>
  An argument can be resolved when it is the path of an existing file or the name of a
  file in the data directory; it resolves to the first of the two that exists.
\<close>

definition resolvable :: "os_state \<Rightarrow> string \<Rightarrow> bool" where
  "resolvable os arg \<longleftrightarrow> isfile os arg \<or> isfile os (path_join os (DATA_DIR os) arg)"

definition resolved :: "os_state \<Rightarrow> string \<Rightarrow> string" where
  "resolved os arg = (if isfile os arg then arg else path_join os (DATA_DIR os) arg)"

section \<open>The table of moves is the king-move adjacency\<close>

lemma fold_insert_if:
  "fold (\<lambda>x s. if P x then insert x s else s) xs S = S \<union> {x \<in> set xs. P x}"
  by (induction xs arbitrary: S) auto

lemma index_moves_eq:
  "get_possible_index_moves index =
     {move \<in> set possible_moves. 0 \<le> index + move \<and> index + move \<le> 15} -
     (if index mod 4 = 0 then {-5, -1, 3} else if index mod 4 = 3 then {-3, 1, 5} else {})"
  unfolding get_possible_index_moves_def Let_def fold_insert_if
  by simp

lemma moves_iff:
  "move \<in> get_possible_index_moves index \<longleftrightarrow>
     move \<in> set possible_moves \<and> 0 \<le> index + move \<and> index + move \<le> 15 \<and>
     \<not> (index mod 4 = 0 \<and> move \<in> {-5, -1, 3}) \<and>
     \<not> (index mod 4 = 3 \<and> move \<in> {-3, 1, 5})"
  unfolding index_moves_eq by auto

lemma range16:
  "0 \<le> (p::int) \<Longrightarrow> p \<le> 15 \<Longrightarrow>
   p = 0 \<or> p = 1 \<or> p = 2 \<or> p = 3 \<or> p = 4 \<or> p = 5 \<or> p = 6 \<or> p = 7 \<or>
   p = 8 \<or> p = 9 \<or> p = 10 \<or> p = 11 \<or> p = 12 \<or> p = 13 \<or> p = 14 \<or> p = 15"
  by arith

lemma move_iff_king:
  assumes "0 \<le> pos" "pos \<le> 15"
  shows "p - pos \<in> get_possible_index_moves pos \<longleftrightarrow> p \<in> king_neighbors pos"
proof (cases "0 \<le> p \<and> p \<le> 15")
  case False
  then show ?thesis by (auto simp: moves_iff king_neighbors_def)
next
  case True
  then have p: "0 \<le> p" "p \<le> 15" by auto
  show ?thesis
    using range16 [OF assms] range16 [OF p]
    unfolding moves_iff possible_moves_def king_neighbors_def
    by (elim disjE) simp_all
qed

lemma fold_upd_apply:
  "fold (\<lambda>i d. d(i \<mapsto> f i)) xs m k = (if k \<in> set xs then Some (f k) else m k)"
  by (induction xs arbitrary: m) auto

lemma build_possible_index_moves_apply:
  "build_possible_index_moves cache i =
     (if 0 \<le> i \<and> i \<le> 15 then Some (get_possible_index_moves i) else cache i)"
  by (simp add: build_possible_index_moves_def fold_upd_apply)

text \<open>
  C3. For every position of the grid, the cells reached by the moves computed for it are
  exactly its king-move neighbours. The moves are the offsets that stay within 0..15,
  less the leftward offsets in the left column and the rightward offsets in the right
  column: the two conditionals on the top and the bottom row remove nothing. The table
  built by \<open>_build_possible_index_moves\<close> holds these moves, whatever it held before.
\<close>

theorem moves_are_king_moves:
  assumes "0 \<le> pos" and "pos \<le> 15"
  shows "(\<lambda>move. pos + move) ` get_possible_index_moves pos = king_neighbors pos \<and>
         get_possible_index_moves pos =
           {move \<in> set possible_moves. 0 \<le> pos + move \<and> pos + move \<le> 15} -
           (if pos mod 4 = 0 then {-5, -1, 3} else if pos mod 4 = 3 then {-3, 1, 5} else {}) \<and>
         build_possible_index_moves cache pos = Some (get_possible_index_moves pos)"
proof -
  have "(\<lambda>move. pos + move) ` get_possible_index_moves pos = king_neighbors pos"
  proof (rule set_eqI)
    fix p
    have "p \<in> (\<lambda>move. pos + move) ` get_possible_index_moves pos \<longleftrightarrow>
          p - pos \<in> get_possible_index_moves pos"
      by (auto simp: image_iff intro: bexI [of _ "p - pos"])
    then show "p \<in> (\<lambda>move. pos + move) ` get_possible_index_moves pos \<longleftrightarrow>
               p \<in> king_neighbors pos"
      using move_iff_king [OF assms] by simp
  qed
  then show ?thesis
    using assms index_moves_eq [of pos]
    by (simp only: build_possible_index_moves_apply if_True simp_thms)
qed

theorem moves_are_king_moves_witness:
  "(0::int) \<le> 12 \<and> (12::int) \<le> 15 \<and>
   get_possible_index_moves 12 = {-4, -3, 1} \<and>
   (\<lambda>move. 12 + move) ` get_possible_index_moves 12 = king_neighbors 12 \<and>
   king_neighbors 12 = {8, 9, 13} \<and>
   build_possible_index_moves Map.empty 12 = Some {-4, -3, 1}"
proof -
  have h: "(0::int) \<le> 12" "(12::int) \<le> 15"
    by simp_all
  have m: "get_possible_index_moves 12 = {-4, -3, 1}"
    by (auto simp: index_moves_eq possible_moves_def)
  note t = moves_are_king_moves [OF h, of Map.empty]
  have k: "(\<lambda>move. 12 + move) ` get_possible_index_moves 12 = king_neighbors 12"
    using t by (rule conjunct1)
  have b: "build_possible_index_moves Map.empty 12 = Some (get_possible_index_moves 12)"
    using t by (elim conjE)
  have "king_neighbors 12 = {8, 9, 13}"
    unfolding k [symmetric] m by simp
  with h m k b show ?thesis
    by (simp only: simp_thms)
qed

section \<open>The dictionary filter and the index\<close>

lemma alphabet_facts:
  "distinct alphabet" "CHR ''q'' \<in> set alphabet" "CHR ''u'' \<in> set alphabet"
  by (simp_all add: alphabet_def)

lemma set_missing_letters:
  "set (missing_letters board) =
     {l \<in> set alphabet. l \<notin> set board \<and> \<not> (l = CHR ''u'' \<and> CHR ''q'' \<in> set board)}"
proof -
  have d: "distinct (filter (\<lambda>letter. letter \<notin> set board) alphabet)"
    using alphabet_facts(1) by simp
  show ?thesis
    unfolding missing_letters_def Let_def
    using alphabet_facts(2,3) by (auto simp: set_remove1_eq [OF d])
qed

lemma set_present_letters:
  "set (present_letters board) =
     {l \<in> set alphabet. l \<in> set board \<or> (l = CHR ''u'' \<and> CHR ''q'' \<in> set board)}"
  unfolding present_letters_def set_filter set_missing_letters by auto

lemma has_missing_fold:
  "fold (\<lambda>letter (has_missing_letters, rw).
           if has_missing_letters then (has_missing_letters, rw)
           else if letter \<in> set word then (True, insert word rw)
           else (has_missing_letters, rw)) ls (h, rw) =
     (h \<or> (\<exists>l\<in>set ls. l \<in> set word),
      if \<not> h \<and> (\<exists>l\<in>set ls. l \<in> set word) then insert word rw else rw)"
  by (induction ls arbitrary: h rw) auto

lemma remove_words_fold:
  "fold (\<lambda>word rw. snd (fold (\<lambda>letter (has_missing_letters, rw).
                          if has_missing_letters then (has_missing_letters, rw)
                          else if letter \<in> set word then (True, insert word rw)
                          else (has_missing_letters, rw)) ls (False, rw))) dws rw0 =
     rw0 \<union> {w \<in> set dws. \<exists>l\<in>set ls. l \<in> set w}"
  by (induction dws arbitrary: rw0) (auto simp: has_missing_fold)

lemma remove_words_eq:
  "remove_words board dws = {w \<in> set dws. \<exists>l\<in>set (missing_letters board). l \<in> set w}"
  unfolding remove_words_def remove_words_fold by simp

lemma unsorted_valid_words_iff:
  "w \<in> set (unsorted_valid_words board (dict_words text)) \<longleftrightarrow>
     w \<in> set (map strip (file_lines text)) \<and> 3 \<le> length w \<and> length w \<le> 17 \<and>
     (\<forall>c\<in>set w. c \<in> set alphabet \<longrightarrow> c \<in> set board \<or> (c = CHR ''u'' \<and> CHR ''q'' \<in> set board))"
  unfolding unsorted_valid_words_def remove_words_eq set_missing_letters dict_words_def
  by auto

lemma empty_valid_words_apply:
  "empty_valid_words letters c0 =
     (if c0 \<in> set letters
      then Some (\<lambda>c1. if c1 \<in> set letters then Some [] else None) else None)"
proof -
  have inner: "fold (\<lambda>second_word_letter d. d(second_word_letter \<mapsto> [])) letters Map.empty =
        (\<lambda>c1. if c1 \<in> set letters then Some [] else None)"
    by (rule ext) (simp add: fold_upd_apply)
  show ?thesis
    unfolding empty_valid_words_def inner fold_upd_apply ..
qed

lemma lookup2_empty_valid_words:
  "lookup2 (empty_valid_words letters) c0 c1 =
     (if c0 \<in> set letters \<and> c1 \<in> set letters then Some [] else None)"
  by (simp add: lookup2_def empty_valid_words_apply)

lemma getitem_0: "2 \<le> length xs \<Longrightarrow> getitem xs 0 = Inr (xs ! 0)"
  by (cases xs) (simp_all add: getitem_def py_index_def)

lemma getitem_1: "2 \<le> length xs \<Longrightarrow> getitem xs 1 = Inr (xs ! 1)"
  by (simp add: getitem_def py_index_def)

lemma getitem_nat: "0 \<le> i \<Longrightarrow> i < int (length xs) \<Longrightarrow> getitem xs i = Inr (xs ! nat i)"
  by (simp add: getitem_def py_index_def)

lemma setitem_nat: "0 \<le> i \<Longrightarrow> i < int (length xs) \<Longrightarrow> setitem xs i v = Inr (xs[nat i := v])"
  by (simp add: setitem_def py_index_def)

text \<open>
  Appending words whose first two letters are keys of the nested dictionary succeeds, and
  each bucket receives, in order, the words that start with its two letters.
\<close>

lemma append_words_lookup2:
  assumes "\<forall>w\<in>set ws. 2 \<le> length w \<and> lookup2 vw (w ! 0) (w ! 1) \<noteq> None"
  shows "\<exists>vw'. append_words vw ws = Inr vw' \<and>
           (\<forall>c0 c1. lookup2 vw' c0 c1 =
              map_option (\<lambda>l. l @ filter (\<lambda>w. w ! 0 = c0 \<and> w ! 1 = c1) ws) (lookup2 vw c0 c1))"
  using assms
proof (induction ws arbitrary: vw)
  case Nil
  then show ?case by (simp add: option.map_ident)
next
  case (Cons word ws)
  from Cons.prems have len: "2 \<le> length word" and "lookup2 vw (word ! 0) (word ! 1) \<noteq> None"
    by auto
  then obtain d l where d: "vw (word ! 0) = Some d" and l: "d (word ! 1) = Some l"
    by (auto simp: lookup2_def split: option.splits)
  let ?vw = "vw(word ! 0 \<mapsto> d(word ! 1 \<mapsto> l @ [word]))"
  have upd: "lookup2 ?vw c0 c1 =
               (if c0 = word ! 0 \<and> c1 = word ! 1 then Some (l @ [word]) else lookup2 vw c0 c1)"
    for c0 c1
    using d l by (auto simp: lookup2_def)
  have "\<forall>w\<in>set ws. 2 \<le> length w \<and> lookup2 ?vw (w ! 0) (w ! 1) \<noteq> None"
    using Cons.prems by (auto simp: upd simp del: One_nat_def)
  from Cons.IH [OF this] obtain vw' where
    vw': "append_words ?vw ws = Inr vw'"
      "\<And>c0 c1. lookup2 vw' c0 c1 =
          map_option (\<lambda>l. l @ filter (\<lambda>w. w ! 0 = c0 \<and> w ! 1 = c1) ws) (lookup2 ?vw c0 c1)"
    by blast
  have step: "append_words vw (word # ws) = append_words ?vw ws"
    using d l by (simp add: getitem_0 [OF len] getitem_1 [OF len] del: One_nat_def)
  have "lookup2 vw' c0 c1 =
          map_option (\<lambda>l. l @ filter (\<lambda>w. w ! 0 = c0 \<and> w ! 1 = c1) (word # ws)) (lookup2 vw c0 c1)"
    for c0 c1
  proof -
    have "lookup2 vw (word ! 0) (word ! 1) = Some l"
      using d l by (simp add: lookup2_def)
    then show ?thesis
      unfolding vw'(2) upd by (auto simp del: One_nat_def)
  qed
  with step vw'(1) show ?case by simp
qed

lemma first_two_in_set: "2 \<le> length w \<Longrightarrow> w ! 0 \<in> set w \<and> w ! 1 \<in> set w"
  by (auto intro!: nth_mem)

lemma load_dictionary_indexes:
  assumes "files os dict_file = Some text" and "lowercase_words text"
  shows "\<exists>vw. load_dictionary os dict_file board = Inr vw \<and>
           indexes vw (set (present_letters board))
             (unsorted_valid_words board (dict_words text))"
proof -
  let ?W = "unsorted_valid_words board (dict_words text)"
  let ?P = "set (present_letters board)"
  have keys: "\<forall>w\<in>set ?W. 2 \<le> length w \<and>
                lookup2 (empty_valid_words (present_letters board)) (w ! 0) (w ! 1) \<noteq> None"
  proof
    fix w assume w: "w \<in> set ?W"
    then have len: "3 \<le> length w" and low: "set w \<subseteq> set alphabet"
      and pres: "\<forall>c\<in>set w. c \<in> set alphabet \<longrightarrow>
                   c \<in> set board \<or> (c = CHR ''u'' \<and> CHR ''q'' \<in> set board)"
      using assms(2) by (auto simp: unsorted_valid_words_iff lowercase_words_def)
    have "c \<in> ?P" if "c \<in> set w" for c
      using that low pres by (auto simp: set_present_letters)
    moreover have "w ! 0 \<in> set w" "w ! 1 \<in> set w"
      using len first_two_in_set [of w] by simp_all
    ultimately show "2 \<le> length w \<and>
        lookup2 (empty_valid_words (present_letters board)) (w ! 0) (w ! 1) \<noteq> None"
      using len by (simp add: lookup2_empty_valid_words del: One_nat_def)
  qed
  from append_words_lookup2 [OF keys] obtain vw where
    vw: "append_words (empty_valid_words (present_letters board)) ?W = Inr vw"
      "\<And>c0 c1. lookup2 vw c0 c1 =
          map_option (\<lambda>l. l @ filter (\<lambda>w. w ! 0 = c0 \<and> w ! 1 = c1) ?W)
            (lookup2 (empty_valid_words (present_letters board)) c0 c1)"
    by blast
  have "indexes vw ?P ?W"
    unfolding indexes_def vw(2) lookup2_empty_valid_words by simp
  with vw(1) assms(1) show ?thesis
    by (simp add: load_dictionary_def)
qed

lemma in_index_indexes:
  assumes "indexes vw P W" and "\<forall>w\<in>set W. 2 \<le> length w \<and> w ! 0 \<in> P \<and> w ! 1 \<in> P"
  shows "in_index vw w \<longleftrightarrow> w \<in> set W"
proof
  assume "in_index vw w"
  then show "w \<in> set W"
    using assms(1) by (auto simp: in_index_def indexes_def split: if_splits)
next
  assume w: "w \<in> set W"
  with assms(2) have "w ! 0 \<in> P" "w ! 1 \<in> P" by auto
  with assms(1) have "lookup2 vw (w ! 0) (w ! 1) =
      Some (filter (\<lambda>v. v ! 0 = w ! 0 \<and> v ! 1 = w ! 1) W)"
    by (simp add: indexes_def del: One_nat_def)
  moreover have "w \<in> set (filter (\<lambda>v. v ! 0 = w ! 0 \<and> v ! 1 = w ! 1) W)"
    using w by simp
  ultimately show "in_index vw w"
    unfolding in_index_def by blast
qed

lemma valid_word_letters:
  assumes "lowercase_words text"
    and "w \<in> set (unsorted_valid_words board (dict_words text))"
  shows "3 \<le> length w \<and> set w \<subseteq> set (present_letters board)"
  using assms
  by (auto simp: unsorted_valid_words_iff lowercase_words_def set_present_letters)

lemma example_lines:
  "map strip (file_lines example_text) = [''via'', ''quiv'', ''qua'', ''vi'', ''zebra'']"
  by (simp add: example_text_def strip_def isspace_def)

lemma example_lowercase: "lowercase_words example_text"
  unfolding lowercase_words_def
  using example_lines by (auto simp: alphabet_def)

lemma example_file: "files example_os ''data/dictionary.txt'' = Some example_text"
  by (simp add: example_os_def)

section \<open>The word of a path\<close>

lemma spell_append: "spell board (p @ r) = spell board p @ spell board r"
  by (simp add: spell_def)

lemma length_cell: "length (cell board pos) = (if board ! nat pos = CHR ''q'' then 2 else 1)"
  by (simp add: cell_def)

lemma length_spell:
  "length (spell board path) =
     length path + length (filter (\<lambda>pos. board ! nat pos = CHR ''q'') path)"
  by (induction path) (simp_all add: spell_def length_cell)

lemma cur_word_spell:
  assumes "\<forall>pos\<in>set path. 0 \<le> pos \<and> pos < int (length board)"
  shows "cur_word board path w = Inr (w @ spell board path)"
  using assms
proof (induction path arbitrary: w)
  case Nil
  then show ?case by (simp add: spell_def)
next
  case (Cons pos ps)
  then have "getitem board pos = Inr (board ! nat pos)"
    by (simp add: getitem_nat)
  with Cons show ?case
    by (simp add: spell_def cell_def Let_def)
qed

section \<open>Simple paths and reachable words\<close>

lemma simple_path_snoc:
  "simple_path (p @ [n]) \<longleftrightarrow>
     0 \<le> n \<and> n \<le> 15 \<and> (p = [] \<or> simple_path p \<and> n \<notin> set p \<and> adjacent (last p) n)"
  by (auto simp: simple_path_def successively_append_iff)

lemma simple_path_prefix: "simple_path (p @ e) \<Longrightarrow> p \<noteq> [] \<Longrightarrow> simple_path p"
  by (auto simp: simple_path_def successively_append_iff)

lemma simple_path_length:
  assumes "simple_path p"
  shows "length p \<le> 16"
proof -
  from assms have "distinct p" "set p \<subseteq> {0..15}"
    by (auto simp: simple_path_def)
  have "card (set p) \<le> card {0..15::int}"
    by (rule card_mono) (use \<open>set p \<subseteq> {0..15}\<close> in simp_all)
  with \<open>distinct p\<close> show ?thesis
    by (simp add: distinct_card)
qed

lemma reach_step:
  "reach board D p =
     {w \<in> D. simple_path p \<and> spell board p = w} \<union> (\<Union>n. reach board D (p @ [n]))"
proof (rule set_eqI)
  fix w
  show "w \<in> reach board D p \<longleftrightarrow>
        w \<in> {w \<in> D. simple_path p \<and> spell board p = w} \<union> (\<Union>n. reach board D (p @ [n]))"
  proof
    assume "w \<in> reach board D p"
    then obtain ext where w: "w \<in> D" "simple_path (p @ ext)" "spell board (p @ ext) = w"
      by (auto simp: reach_def)
    show "w \<in> {w \<in> D. simple_path p \<and> spell board p = w} \<union> (\<Union>n. reach board D (p @ [n]))"
    proof (cases ext)
      case Nil
      with w show ?thesis by simp
    next
      case (Cons n e)
      with w have "w \<in> reach board D (p @ [n])"
        by (auto simp: reach_def intro: exI [of _ e])
      then show ?thesis by blast
    qed
  next
    assume "w \<in> {w \<in> D. simple_path p \<and> spell board p = w} \<union> (\<Union>n. reach board D (p @ [n]))"
    then consider "w \<in> D" "simple_path p" "spell board p = w"
      | n where "w \<in> reach board D (p @ [n])"
      by blast
    then show "w \<in> reach board D p"
    proof cases
      case 1
      then show ?thesis by (auto simp: reach_def intro: exI [of _ "[]"])
    next
      case 2
      then obtain e where "w \<in> D" "simple_path (p @ n # e)" "spell board (p @ n # e) = w"
        by (auto simp: reach_def)
      then show ?thesis by (auto simp: reach_def)
    qed
  qed
qed

lemma reach_simple: "w \<in> reach board D p \<Longrightarrow> p \<noteq> [] \<Longrightarrow> simple_path p"
  by (auto simp: reach_def dest: simple_path_prefix)

lemma startswith_append: "startswith (s @ t) s"
  by (simp add: startswith_def)

lemma reach_prune:
  assumes "\<not> (\<exists>w\<in>D. startswith w (spell board p))"
  shows "reach board D p = {}"
  using assms startswith_append [of "spell board p"]
  by (auto simp: reach_def spell_append)

lemma spell_single_short: "length (spell board [i]) \<le> 2"
  by (simp add: spell_def cell_def)

section \<open>The pieces of one call\<close>

lemma fold_find:
  assumes "\<And>m fw. m \<in> set ms \<Longrightarrow> F m fw = Inr (fw \<union> S m)"
  shows "fold (\<lambda>move r. case r of Inl e \<Rightarrow> Inl e | Inr fw \<Rightarrow> F move fw) ms (Inr fw0) =
           Inr (fw0 \<union> (\<Union>m\<in>set ms. S m))"
  using assms
proof (induction ms arbitrary: fw0)
  case Nil
  then show ?case by simp
next
  case (Cons m ms)
  then show ?case by (simp add: Un_assoc)
qed

lemma available_moves_filter:
  assumes "\<forall>m\<in>set ms. 0 \<le> index + m \<and> index + m < int (length used)"
  shows "available_moves used index ms = Inr (filter (\<lambda>m. \<not> used ! nat (index + m)) ms)"
  using assms by (induction ms) (simp_all add: getitem_nat)

lemma bucket_indexes:
  assumes "indexes vw P W" and "2 \<le> length s" and "s ! 0 \<in> P" and "s ! 1 \<in> P"
  shows "bucket vw s = Inr (filter (\<lambda>w. w ! 0 = s ! 0 \<and> w ! 1 = s ! 1) W)"
proof -
  from assms(1,3,4) have "lookup2 vw (s ! 0) (s ! 1) =
      Some (filter (\<lambda>w. w ! 0 = s ! 0 \<and> w ! 1 = s ! 1) W)"
    by (simp add: indexes_def del: One_nat_def)
  then obtain d where "vw (s ! 0) = Some d"
    "d (s ! 1) = Some (filter (\<lambda>w. w ! 0 = s ! 0 \<and> w ! 1 = s ! 1) W)"
    by (auto simp: lookup2_def split: option.splits simp del: One_nat_def)
  then show ?thesis
    by (simp add: bucket_def getitem_0 [OF assms(2)] getitem_1 [OF assms(2)] del: One_nat_def)
qed

lemma cell_letters:
  assumes "valid_board board" and "0 \<le> pos" and "pos \<le> 15"
  shows "cell board pos \<noteq> [] \<and> hd (cell board pos) = board ! nat pos \<and>
         set (cell board pos) \<subseteq> set (present_letters board)"
proof -
  from assms have "nat pos < length board"
    by (simp add: valid_board_def)
  then have "board ! nat pos \<in> set board"
    by (rule nth_mem)
  with assms(1) show ?thesis
    using alphabet_facts(3)
    by (auto simp: cell_def set_present_letters valid_board_def)
qed

lemma spell_first_two:
  assumes "valid_board board" and "set path \<subseteq> {0..15}" and "2 \<le> length path"
  shows "2 \<le> length (spell board path) \<and>
         spell board path ! 0 \<in> set (present_letters board) \<and>
         spell board path ! 1 \<in> set (present_letters board)"
proof -
  have sub: "set (spell board path) \<subseteq> set (present_letters board)"
    using assms(1,2) cell_letters [OF assms(1)]
    by (fastforce simp: spell_def)
  have "length path \<le> length (spell board path)"
    by (simp add: length_spell)
  with assms(3) have len: "2 \<le> length (spell board path)"
    by simp
  with first_two_in_set [OF len] sub show ?thesis
    by blast
qed

lemma startswith_first_two:
  assumes "startswith w s" and "2 \<le> length s"
  shows "w ! 0 = s ! 0 \<and> w ! 1 = s ! 1"
proof -
  from assms(1) have t: "take (length s) w = s"
    by (simp add: startswith_def)
  from assms(2) have "0 < length s" "1 < length s"
    by arith+
  then have "take (length s) w ! 0 = w ! 0" "take (length s) w ! 1 = w ! 1"
    by (simp_all only: nth_take)
  then show ?thesis
    unfolding t by simp
qed

lemma check_path_indexes:
  assumes "valid_board board" and "indexes vw (set (present_letters board)) W"
    and "\<forall>w\<in>set W. 3 \<le> length w" and "set path \<subseteq> {0..15}" and "2 \<le> length path"
  shows "check_path board vw path fw =
           Inr ((\<exists>w\<in>set W. startswith w (spell board path)),
                (if spell board path \<in> set W then insert (spell board path) fw else fw))"
proof -
  let ?s = "spell board path"
  let ?b = "filter (\<lambda>w. w ! 0 = ?s ! 0 \<and> w ! 1 = ?s ! 1) W"
  from spell_first_two [OF assms(1,4,5)]
  have two: "2 \<le> length ?s" and keys: "?s ! 0 \<in> set (present_letters board)"
    "?s ! 1 \<in> set (present_letters board)"
    by simp_all
  have b: "bucket vw ?s = Inr ?b"
    by (rule bucket_indexes [OF assms(2) two keys])
  have "\<forall>pos\<in>set path. 0 \<le> pos \<and> pos < int (length board)"
    using assms(1,4) by (auto simp: valid_board_def)
  from cur_word_spell [OF this, of "[]"]
  have cw: "cur_word board path [] = Inr ?s"
    by simp
  have start: "list_ex (\<lambda>word. startswith word ?s) ?b \<longleftrightarrow> (\<exists>w\<in>set W. startswith w ?s)"
    using startswith_first_two [OF _ two] by (auto simp: list_ex_iff)
  have mem: "?s \<in> set ?b \<longleftrightarrow> ?s \<in> set W"
    by simp
  have short: "?s \<notin> set W" if "\<not> 2 < length ?s"
    using that assms(3) by fastforce
  from assms(5) have "length path \<noteq> 1"
    by simp
  then show ?thesis
    using short by (simp add: check_path_def cw b Let_def start del: One_nat_def)
qed

section \<open>What one call of find_words adds\<close>

lemma find_words_reach:
  assumes ss: "search_setup board vw W pim iter"
    and st: "search_state index used path"
  shows "find_words board vw pim iter index used path fw =
           Inr (fw \<union> reach board (set W) (path @ [index]))"
  using st
proof (induction "16 - length path" arbitrary: index used path fw rule: less_induct)
  case less
  let ?p = "path @ [index]"
  let ?D = "set W"
  let ?moves = "get_possible_index_moves index"
  from ss have board: "valid_board board"
    and idx: "indexes vw (set (present_letters board)) W"
    and long: "\<forall>w\<in>set W. 3 \<le> length w"
    and pim: "\<forall>i\<in>{0..15}. pim i = Some (get_possible_index_moves i)"
    and iter: "iterates iter"
    by (simp_all add: search_setup_def)
  from less.prems have len: "length used = 16" and sp: "simple_path ?p"
    and us: "\<forall>i<16. used ! i \<longleftrightarrow> int i \<in> set path"
    by (simp_all add: search_state_def)
  from sp have i0: "0 \<le> index" and i15: "index \<le> 15" and sub: "set ?p \<subseteq> {0..15}"
    by (auto simp: simple_path_def)
  from simple_path_length [OF sp] have lp: "length path < 16"
    by simp
  define used' where "used' = used[nat index := True]"
  have si: "setitem used index True = Inr used'"
    using i0 i15 len by (simp add: setitem_nat used'_def)
  have len': "length used' = 16"
    using len by (simp add: used'_def)
  have pm: "pim index = Some ?moves"
    using pim i0 i15 by simp
  have fin: "finite ?moves"
    unfolding index_moves_eq by simp
  with iter have it: "set (iter ?moves) = ?moves"
    by (simp add: iterates_def)
  define avail where "avail = filter (\<lambda>m. \<not> used' ! nat (index + m)) (iter ?moves)"
  have inrange: "0 \<le> index + m \<and> index + m \<le> 15" if "m \<in> ?moves" for m
    using that by (simp add: moves_iff)
  have av: "available_moves used' index (iter ?moves) = Inr avail"
    unfolding avail_def
    by (rule available_moves_filter) (use inrange it len' in fastforce)
  have us': "used' ! i \<longleftrightarrow> int i \<in> set ?p" if "i < 16" for i
    using that us len i0 i15 by (auto simp: used'_def nth_list_update)
  have avail_iff: "m \<in> set avail \<longleftrightarrow> m \<in> ?moves \<and> index + m \<notin> set ?p" for m
  proof (cases "m \<in> ?moves")
    case True
    from inrange [OF True] have "nat (index + m) < 16" "int (nat (index + m)) = index + m"
      by auto
    with us' [of "nat (index + m)"] True it show ?thesis
      by (simp add: avail_def)
  next
    case False
    with it show ?thesis by (simp add: avail_def)
  qed
  have callee: "find_words board vw pim iter (index + m) used' ?p f =
                  Inr (f \<union> reach board ?D (?p @ [index + m]))"
    if m: "m \<in> set avail" for m f
  proof (rule less.hyps)
    show "16 - length ?p < 16 - length path"
      using lp by simp
    from m have "m \<in> ?moves" "index + m \<notin> set ?p"
      by (simp_all add: avail_iff)
    with inrange [of m] sp have "simple_path (?p @ [index + m])"
      by (subst simple_path_snoc) (simp add: adjacent_def)
    with len' us' show "search_state (index + m) used' ?p"
      by (simp add: search_state_def)
  qed
  have next_cells: "(\<Union>n. reach board ?D (?p @ [n])) =
                    (\<Union>m\<in>set avail. reach board ?D (?p @ [index + m]))"
  proof
    show "(\<Union>n. reach board ?D (?p @ [n])) \<subseteq> (\<Union>m\<in>set avail. reach board ?D (?p @ [index + m]))"
    proof
      fix w assume "w \<in> (\<Union>n. reach board ?D (?p @ [n]))"
      then obtain n where n: "w \<in> reach board ?D (?p @ [n])"
        by blast
      then have "simple_path (?p @ [n])"
        by (rule reach_simple) simp
      then have "n \<notin> set ?p" "adjacent index n"
        using simple_path_snoc [of ?p n] by simp_all
      then have "n - index \<in> set avail"
        by (simp add: avail_iff adjacent_def)
      with n show "w \<in> (\<Union>m\<in>set avail. reach board ?D (?p @ [index + m]))"
        by (auto intro!: bexI [of _ "n - index"])
    qed
  qed blast
  have step: "reach board ?D ?p =
      (if spell board ?p \<in> ?D then {spell board ?p} else {}) \<union>
      (\<Union>m\<in>set avail. reach board ?D (?p @ [index + m]))"
    using reach_step [of board ?D ?p] sp unfolding next_cells by auto
  obtain ws fw' where cp: "check_path board vw ?p fw = Inr (ws, fw')"
    and ws: "\<not> ws \<Longrightarrow> reach board ?D ?p = {}"
    and fw': "fw' = fw \<union> (if spell board ?p \<in> ?D then {spell board ?p} else {})"
  proof (cases "path = []")
    case True
    have "spell board [index] \<notin> ?D"
      using long spell_single_short [of board index] by fastforce
    with True have "check_path board vw ?p fw = Inr (True, fw)"
      "fw = fw \<union> (if spell board ?p \<in> ?D then {spell board ?p} else {})"
      by (simp_all add: check_path_def)
    then show ?thesis
      using that [of True fw] by simp
  next
    case False
    then have "2 \<le> length ?p"
      by (cases path) simp_all
    from check_path_indexes [OF board idx long sub this, of fw]
    show ?thesis
      using that [of "\<exists>w\<in>?D. startswith w (spell board ?p)"
          "if spell board ?p \<in> ?D then insert (spell board ?p) fw else fw"]
        reach_prune [of ?D board ?p]
      by auto
  qed
  show ?case
  proof (cases "ws \<and> avail \<noteq> []")
    case True
    have "find_words board vw pim iter index used path fw =
            fold (\<lambda>move r. case r of Inl e \<Rightarrow> Inl e
                   | Inr f \<Rightarrow> find_words board vw pim iter (index + move) used' ?p f)
              avail (Inr fw')"
      using True by (subst find_words.simps) (simp add: si pm av cp)
    also have "\<dots> = Inr (fw' \<union> (\<Union>m\<in>set avail. reach board ?D (?p @ [index + m])))"
      by (rule fold_find) (rule callee)
    finally show ?thesis
      unfolding fw' step by (simp add: Un_assoc)
  next
    case False
    then have "find_words board vw pim iter index used path fw = Inr fw'"
      by (subst find_words.simps) (auto simp add: si pm av cp)
    moreover have "(\<Union>m\<in>set avail. reach board ?D (?p @ [index + m])) = {}"
    proof (cases ws)
      case True
      with False show ?thesis by simp
    next
      case False
      from ws [OF this] show ?thesis
        unfolding step by simp
    qed
    ultimately show ?thesis
      unfolding fw' step by simp
  qed
qed

section \<open>The whole search\<close>

lemma found_words_from_reach:
  assumes "search_setup board vw W pim iter" and "set cells \<subseteq> {0..15}"
  shows "found_words_from board vw pim iter cells fw =
           Inr (fw \<union> (\<Union>i\<in>set cells. reach board (set W) [i]))"
  using assms(2)
proof (induction cells arbitrary: fw)
  case Nil
  then show ?case by simp
next
  case (Cons i cells)
  then have "search_state i (replicate 16 False) []"
    by (simp add: search_state_def simple_path_def)
  from find_words_reach [OF assms(1) this]
  have "find_words board vw pim iter i (replicate 16 False) [] fw =
          Inr (fw \<union> reach board (set W) [i])"
    by simp
  with Cons show ?case
    by (simp add: Un_assoc)
qed

lemma reach_all: "(\<Union>i\<in>{0..15}. reach board D [i]) = {w \<in> D. traceable board w}"
proof (rule set_eqI)
  fix w
  show "w \<in> (\<Union>i\<in>{0..15}. reach board D [i]) \<longleftrightarrow> w \<in> {w \<in> D. traceable board w}"
  proof
    assume "w \<in> (\<Union>i\<in>{0..15}. reach board D [i])"
    then show "w \<in> {w \<in> D. traceable board w}"
      by (auto simp: reach_def traceable_def)
  next
    assume "w \<in> {w \<in> D. traceable board w}"
    then obtain path where w: "w \<in> D" "simple_path path" "spell board path = w"
      by (auto simp: traceable_def)
    then obtain i ext where p: "path = i # ext" "i \<in> {0..15}"
      by (cases path) (auto simp: simple_path_def)
    with w have "w \<in> reach board D [i]"
      by (auto simp: reach_def)
    with p show "w \<in> (\<Union>i\<in>{0..15}. reach board D [i])"
      by blast
  qed
qed

lemma found_words_traceable:
  assumes "search_setup board vw W pim iter"
  shows "found_words_from board vw pim iter [0..15] {} = Inr {w \<in> set W. traceable board w}"
  using found_words_from_reach [OF assms, of "[0..15]" "{}"] reach_all [of board "set W"]
  by simp

lemma sort_iterates:
  assumes "iterates list_of" and "finite F"
  shows "sort (list_of F) = sorted_list_of_set F"
proof (rule sorted_distinct_set_unique)
  from assms have "set (list_of F) = F" "distinct (list_of F)"
    by (simp_all add: iterates_def)
  then show "set (sort (list_of F)) = set (sorted_list_of_set F)" "distinct (sort (list_of F))"
    using assms(2) by simp_all
qed simp_all

lemma out_words_traceable:
  assumes "search_setup board vw W pim iter" and "iterates list_of"
  shows "out_words board vw pim iter list_of =
           Inr (sorted_list_of_set {w \<in> set W. traceable board w})"
  unfolding out_words_def found_words_traceable [OF assms(1)]
  using sort_iterates [OF assms(2), of "{w \<in> set W. traceable board w}"]
  by simp

lemma build_table: "\<forall>i\<in>{0..15}. build_possible_index_moves cache i = Some (get_possible_index_moves i)"
  by (simp add: build_possible_index_moves_apply)

text \<open>
  On the documented input the dictionary loads and the search runs to its end: the output
  is the sorted list of the filtered words that are traceable on the board.
\<close>

lemma engine:
  assumes "valid_board board" and "files os dict_file = Some text"
    and "lowercase_words text" and "iterates iter" and "iterates list_of"
  shows "\<exists>vw. load_dictionary os dict_file board = Inr vw \<and>
           search_setup board vw (unsorted_valid_words board (dict_words text))
             (build_possible_index_moves cache) iter \<and>
           (\<forall>w. in_index vw w \<longleftrightarrow> w \<in> set (unsorted_valid_words board (dict_words text))) \<and>
           out_words board vw (build_possible_index_moves cache) iter list_of =
             Inr (sorted_list_of_set
                    {w \<in> set (unsorted_valid_words board (dict_words text)). traceable board w})"
proof -
  let ?W = "unsorted_valid_words board (dict_words text)"
  from load_dictionary_indexes [OF assms(2,3)] obtain vw where
    vw: "load_dictionary os dict_file board = Inr vw"
      "indexes vw (set (present_letters board)) ?W"
    by blast
  have letters: "3 \<le> length w \<and> set w \<subseteq> set (present_letters board)" if "w \<in> set ?W" for w
    using valid_word_letters [OF assms(3) that] .
  have ss: "search_setup board vw ?W (build_possible_index_moves cache) iter"
    unfolding search_setup_def
    using assms(1,4) vw(2) letters build_table by blast
  have "\<forall>w\<in>set ?W. 2 \<le> length w \<and> w ! 0 \<in> set (present_letters board) \<and>
          w ! 1 \<in> set (present_letters board)"
  proof
    fix w assume "w \<in> set ?W"
    from letters [OF this] have l: "3 \<le> length w" and s: "set w \<subseteq> set (present_letters board)"
      by simp_all
    from l have "2 \<le> length w" by simp
    with first_two_in_set [OF this] s
    show "2 \<le> length w \<and> w ! 0 \<in> set (present_letters board) \<and>
          w ! 1 \<in> set (present_letters board)"
      by blast
  qed
  from in_index_indexes [OF vw(2) this] vw(1) ss out_words_traceable [OF ss assms(5)]
  show ?thesis by blast
qed

section \<open>Soundness, completeness and key safety of the solve\<close>

text \<open>
  C1. On a validated board and a dictionary of lowercase words, every word of the output
  is a word of the filtered dictionary, held by the index, and is spelled by a simple
  path through cells adjacent by the table of moves, q cells spelling "qu".
\<close>

theorem solve_sound:
  assumes "valid_board board" and "files os dict_file = Some text"
    and "lowercase_words text" and "iterates iter" and "iterates list_of"
  shows "\<exists>vw ws. load_dictionary os dict_file board = Inr vw \<and>
           out_words board vw (build_possible_index_moves cache) iter list_of = Inr ws \<and>
           (\<forall>w\<in>set ws. w \<in> set (unsorted_valid_words board (dict_words text)) \<and>
                        in_index vw w \<and> traceable board w)"
proof -
  let ?W = "unsorted_valid_words board (dict_words text)"
  from engine [OF assms, of cache] obtain vw where
    vw: "load_dictionary os dict_file board = Inr vw"
    and ix: "\<And>w. in_index vw w \<longleftrightarrow> w \<in> set ?W"
    and out: "out_words board vw (build_possible_index_moves cache) iter list_of =
               Inr (sorted_list_of_set {w \<in> set ?W. traceable board w})"
    by blast
  have "\<forall>w\<in>set (sorted_list_of_set {w \<in> set ?W. traceable board w}).
          w \<in> set ?W \<and> in_index vw w \<and> traceable board w"
    by (simp add: ix)
  with vw out show ?thesis by blast
qed

text \<open>
  C2. On a validated board and a dictionary of lowercase words, every word of the
  filtered dictionary that some simple path spells is in the output: a word of the index that is absent from the output is spelled
  by no simple path. The pruning on prefixes loses nothing.
\<close>

theorem solve_complete:
  assumes "valid_board board" and "files os dict_file = Some text"
    and "lowercase_words text" and "iterates iter" and "iterates list_of"
  shows "\<exists>vw ws. load_dictionary os dict_file board = Inr vw \<and>
           out_words board vw (build_possible_index_moves cache) iter list_of = Inr ws \<and>
           (\<forall>w\<in>set (unsorted_valid_words board (dict_words text)).
              traceable board w \<longrightarrow> w \<in> set ws) \<and>
           (\<forall>w. in_index vw w \<and> w \<notin> set ws \<longrightarrow> \<not> traceable board w)"
proof -
  let ?W = "unsorted_valid_words board (dict_words text)"
  from engine [OF assms, of cache] obtain vw where
    vw: "load_dictionary os dict_file board = Inr vw"
    and ix: "\<And>w. in_index vw w \<longleftrightarrow> w \<in> set ?W"
    and out: "out_words board vw (build_possible_index_moves cache) iter list_of =
               Inr (sorted_list_of_set {w \<in> set ?W. traceable board w})"
    by blast
  have "\<forall>w\<in>set ?W. traceable board w \<longrightarrow>
          w \<in> set (sorted_list_of_set {w \<in> set ?W. traceable board w})"
    by simp
  moreover have "\<forall>w. in_index vw w \<and>
      w \<notin> set (sorted_list_of_set {w \<in> set ?W. traceable board w}) \<longrightarrow> \<not> traceable board w"
    by (simp add: ix)
  ultimately show ?thesis
    using vw out by blast
qed

text \<open>
  C10. On a validated board and a dictionary of lowercase words no lookup in the nested
  index fails. For every path of at least
  two cells the first two characters of the accumulated string are keys of the two
  levels of the index, also the u that a q cell adds; the test of any path returns, and
  the whole solve returns its output without raising.
\<close>

theorem bucket_lookup_safe:
  assumes "valid_board board" and "files os dict_file = Some text"
    and "lowercase_words text" and "iterates iter" and "iterates list_of"
  shows "\<exists>vw ws. load_dictionary os dict_file board = Inr vw \<and>
           (\<forall>path. set path \<subseteq> {0..15} \<and> 2 \<le> length path \<longrightarrow>
              (\<exists>w d l. cur_word board path [] = Inr w \<and> vw (w ! 0) = Some d \<and>
                        d (w ! 1) = Some l \<and> bucket vw w = Inr l)) \<and>
           (\<forall>path fw. set path \<subseteq> {0..15} \<and> path \<noteq> [] \<longrightarrow>
              (\<exists>r. check_path board vw path fw = Inr r)) \<and>
           out_words board vw (build_possible_index_moves cache) iter list_of = Inr ws"
proof -
  let ?W = "unsorted_valid_words board (dict_words text)"
  let ?P = "set (present_letters board)"
  from engine [OF assms, of cache] obtain vw where
    vw: "load_dictionary os dict_file board = Inr vw"
    and ss: "search_setup board vw ?W (build_possible_index_moves cache) iter"
    and out: "out_words board vw (build_possible_index_moves cache) iter list_of =
               Inr (sorted_list_of_set {w \<in> set ?W. traceable board w})"
    by blast
  from ss have idx: "indexes vw ?P ?W" and long: "\<forall>w\<in>set ?W. 3 \<le> length w"
    by (simp_all add: search_setup_def)
  have keys: "\<exists>w d l. cur_word board path [] = Inr w \<and> vw (w ! 0) = Some d \<and>
                d (w ! 1) = Some l \<and> bucket vw w = Inr l"
    if p: "set path \<subseteq> {0..15}" "2 \<le> length path" for path
  proof -
    let ?s = "spell board path"
    have "\<forall>pos\<in>set path. 0 \<le> pos \<and> pos < int (length board)"
      using assms(1) p(1) by (auto simp: valid_board_def)
    from cur_word_spell [OF this, of "[]"] have cw: "cur_word board path [] = Inr ?s"
      by simp
    from spell_first_two [OF assms(1) p]
    have two: "2 \<le> length ?s" and k: "?s ! 0 \<in> ?P" "?s ! 1 \<in> ?P"
      by simp_all
    from idx k have "lookup2 vw (?s ! 0) (?s ! 1) =
        Some (filter (\<lambda>w. w ! 0 = ?s ! 0 \<and> w ! 1 = ?s ! 1) ?W)"
      by (simp add: indexes_def del: One_nat_def)
    then obtain d where "vw (?s ! 0) = Some d"
      "d (?s ! 1) = Some (filter (\<lambda>w. w ! 0 = ?s ! 0 \<and> w ! 1 = ?s ! 1) ?W)"
      by (auto simp: lookup2_def split: option.splits simp del: One_nat_def)
    with cw bucket_indexes [OF idx two k] show ?thesis
      by blast
  qed
  have test: "\<exists>r. check_path board vw path fw = Inr r"
    if p: "set path \<subseteq> {0..15}" "path \<noteq> []" for path fw
  proof (cases "length path = 1")
    case True
    then show ?thesis by (auto simp: check_path_def)
  next
    case False
    moreover from p(2) have "0 < length path"
      by simp
    ultimately have "2 \<le> length path"
      by arith
    from check_path_indexes [OF assms(1) idx long p(1) this, of fw] show ?thesis
      by blast
  qed
  from vw keys test out show ?thesis
    by blast
qed

section \<open>The example run\<close>

lemma example_valid: "valid_board example_board"
  by (simp add: valid_board_def example_board_def alphabet_def)

lemma iterates_sorted_list_of_set: "iterates (sorted_list_of_set :: 'a::linorder set \<Rightarrow> 'a list)"
  by (simp add: iterates_def)

lemma example_valid_words:
  "unsorted_valid_words example_board (dict_words example_text) = [''via'', ''quiv'', ''qua'']"
  unfolding dict_words_def example_lines
  by (simp add: unsorted_valid_words_def remove_words_eq missing_letters_def alphabet_def
      example_board_def)

lemma example_cell:
  assumes "0 \<le> pos" and "pos \<le> 15"
  shows "cell example_board pos =
           (if pos = 5 then ''qu'' else if pos = 6 then ''i'' else if pos = 7 then ''a'' else ''v'')"
  using range16 [OF assms]
  by (elim disjE) (simp_all add: cell_def example_board_def)

lemma example_quiv: "traceable example_board ''quiv''"
proof -
  have "simple_path [5, 6, 2]"
    by (simp add: simple_path_def adjacent_def moves_iff possible_moves_def)
  moreover have "spell example_board [5, 6, 2] = ''quiv''"
    by (simp add: spell_def example_cell)
  ultimately show ?thesis
    unfolding traceable_def by blast
qed

lemma example_via: "traceable example_board ''via''"
proof -
  have "simple_path [2, 6, 7]"
    by (simp add: simple_path_def adjacent_def moves_iff possible_moves_def)
  moreover have "spell example_board [2, 6, 7] = ''via''"
    by (simp add: spell_def example_cell)
  ultimately show ?thesis
    unfolding traceable_def by blast
qed

lemma example_qua: "\<not> traceable example_board ''qua''"
proof
  assume "traceable example_board ''qua''"
  then obtain path where sp: "simple_path path" and s: "spell example_board path = ''qua''"
    by (auto simp: traceable_def)
  from sp obtain p1 r1 where path: "path = p1 # r1"
    by (cases path) (auto simp: simple_path_def)
  with sp have p1: "0 \<le> p1" "p1 \<le> 15"
    by (auto simp: simple_path_def)
  from s path have "cell example_board p1 @ spell example_board r1 = ''qua''"
    by (simp add: spell_def)
  then have "p1 = 5" and r1: "spell example_board r1 = ''a''"
    unfolding example_cell [OF p1] by (auto split: if_splits)
  from r1 obtain p2 r2 where rest: "r1 = p2 # r2"
    by (cases r1) (auto simp: spell_def)
  with sp path have p2: "0 \<le> p2" "p2 \<le> 15"
    by (auto simp: simple_path_def)
  from r1 rest have "cell example_board p2 @ spell example_board r2 = ''a''"
    by (simp add: spell_def)
  then have "p2 = 7"
    unfolding example_cell [OF p2] by (auto split: if_splits)
  with sp path rest \<open>p1 = 5\<close> have "adjacent 5 7"
    by (simp add: simple_path_def)
  then show False
    by (simp add: adjacent_def moves_iff possible_moves_def)
qed

lemma example_found:
  "{w \<in> set (unsorted_valid_words example_board (dict_words example_text)).
      traceable example_board w} = {''quiv'', ''via''}"
  unfolding example_valid_words using example_quiv example_via example_qua by auto

lemma example_sorted: "sorted_list_of_set {''quiv'', ''via''} = [''quiv'', ''via'']"
  by code_simp

lemma example_run:
  "\<exists>vw. load_dictionary example_os ''data/dictionary.txt'' example_board = Inr vw \<and>
     out_words example_board vw (build_possible_index_moves cache)
       sorted_list_of_set sorted_list_of_set = Inr [''quiv'', ''via'']"
  using engine [OF example_valid example_file example_lowercase
      iterates_sorted_list_of_set iterates_sorted_list_of_set, of cache]
  unfolding example_found example_sorted by blast

theorem solve_sound_witness:
  "valid_board example_board \<and>
   files example_os ''data/dictionary.txt'' = Some example_text \<and>
   lowercase_words example_text \<and>
   iterates (sorted_list_of_set :: int set \<Rightarrow> int list) \<and>
   iterates (sorted_list_of_set :: string set \<Rightarrow> string list) \<and>
   (\<exists>vw. load_dictionary example_os ''data/dictionary.txt'' example_board = Inr vw \<and>
      out_words example_board vw (build_possible_index_moves Map.empty)
        sorted_list_of_set sorted_list_of_set = Inr [''quiv'', ''via''] \<and>
      ''quiv'' \<in> set (unsorted_valid_words example_board (dict_words example_text)) \<and>
      in_index vw ''quiv'' \<and> traceable example_board ''quiv'')"
proof -
  from solve_sound [OF example_valid example_file example_lowercase
      iterates_sorted_list_of_set iterates_sorted_list_of_set, of Map.empty]
  obtain vw ws where
    vw: "load_dictionary example_os ''data/dictionary.txt'' example_board = Inr vw"
    and ws: "out_words example_board vw (build_possible_index_moves Map.empty)
               sorted_list_of_set sorted_list_of_set = Inr ws"
    and sound: "\<forall>w\<in>set ws. w \<in> set (unsorted_valid_words example_board (dict_words example_text)) \<and>
                  in_index vw w \<and> traceable example_board w"
    by blast
  from example_run [of Map.empty] vw ws have "ws = [''quiv'', ''via'']"
    by auto
  with sound ws have
    "out_words example_board vw (build_possible_index_moves Map.empty)
       sorted_list_of_set sorted_list_of_set = Inr [''quiv'', ''via'']"
    "''quiv'' \<in> set (unsorted_valid_words example_board (dict_words example_text))"
    "in_index vw ''quiv''" "traceable example_board ''quiv''"
    by simp_all
  with vw example_valid example_file example_lowercase
    iterates_sorted_list_of_set [where 'a = int] iterates_sorted_list_of_set [where 'a = string]
  show ?thesis by blast
qed

theorem solve_complete_witness:
  "valid_board example_board \<and>
   files example_os ''data/dictionary.txt'' = Some example_text \<and>
   lowercase_words example_text \<and>
   iterates (sorted_list_of_set :: int set \<Rightarrow> int list) \<and>
   iterates (sorted_list_of_set :: string set \<Rightarrow> string list) \<and>
   ''via'' \<in> set (unsorted_valid_words example_board (dict_words example_text)) \<and>
   traceable example_board ''via'' \<and>
   (\<exists>vw ws. load_dictionary example_os ''data/dictionary.txt'' example_board = Inr vw \<and>
      out_words example_board vw (build_possible_index_moves Map.empty)
        sorted_list_of_set sorted_list_of_set = Inr ws \<and>
      ''via'' \<in> set ws \<and> in_index vw ''qua'' \<and> ''qua'' \<notin> set ws \<and>
      \<not> traceable example_board ''qua'')"
proof -
  from solve_complete [OF example_valid example_file example_lowercase
      iterates_sorted_list_of_set iterates_sorted_list_of_set, of Map.empty]
  obtain vw ws where
    vw: "load_dictionary example_os ''data/dictionary.txt'' example_board = Inr vw"
    and ws: "out_words example_board vw (build_possible_index_moves Map.empty)
               sorted_list_of_set sorted_list_of_set = Inr ws"
    and complete: "\<forall>w\<in>set (unsorted_valid_words example_board (dict_words example_text)).
                  traceable example_board w \<longrightarrow> w \<in> set ws"
    and absent: "\<forall>w. in_index vw w \<and> w \<notin> set ws \<longrightarrow> \<not> traceable example_board w"
    by blast
  have mem: "''via'' \<in> set (unsorted_valid_words example_board (dict_words example_text))"
    by (simp add: example_valid_words)
  with complete example_via have via: "''via'' \<in> set ws"
    by blast
  from engine [OF example_valid example_file example_lowercase
      iterates_sorted_list_of_set iterates_sorted_list_of_set, of Map.empty] vw
  have "in_index vw ''qua'' \<longleftrightarrow>
          ''qua'' \<in> set (unsorted_valid_words example_board (dict_words example_text))"
    by auto
  then have qua: "in_index vw ''qua''"
    by (simp add: example_valid_words)
  from example_run [of Map.empty] vw ws have "''qua'' \<notin> set ws"
    by auto
  with absent qua have "''qua'' \<notin> set ws" "\<not> traceable example_board ''qua''"
    by blast+
  with vw ws mem via qua example_via example_valid example_file example_lowercase
    iterates_sorted_list_of_set [where 'a = int] iterates_sorted_list_of_set [where 'a = string]
  show ?thesis by blast
qed

theorem bucket_lookup_safe_witness:
  "valid_board example_board \<and>
   files example_os ''data/dictionary.txt'' = Some example_text \<and>
   lowercase_words example_text \<and>
   iterates (sorted_list_of_set :: int set \<Rightarrow> int list) \<and>
   iterates (sorted_list_of_set :: string set \<Rightarrow> string list) \<and>
   set [5, 6] \<subseteq> {0..15::int} \<and> 2 \<le> length [5, 6 :: int] \<and>
   cur_word example_board [5, 6] [] = Inr ''qui'' \<and>
   (\<exists>vw d l ws. load_dictionary example_os ''data/dictionary.txt'' example_board = Inr vw \<and>
      vw (CHR ''q'') = Some d \<and> d (CHR ''u'') = Some l \<and> bucket vw ''qui'' = Inr l \<and>
      out_words example_board vw (build_possible_index_moves Map.empty)
        sorted_list_of_set sorted_list_of_set = Inr ws)"
proof -
  from bucket_lookup_safe [OF example_valid example_file example_lowercase
      iterates_sorted_list_of_set iterates_sorted_list_of_set, of Map.empty]
  obtain vw ws where
    vw: "load_dictionary example_os ''data/dictionary.txt'' example_board = Inr vw"
    and keys: "\<forall>path. set path \<subseteq> {0..15} \<and> 2 \<le> length path \<longrightarrow>
              (\<exists>w d l. cur_word example_board path [] = Inr w \<and> vw (w ! 0) = Some d \<and>
                        d (w ! 1) = Some l \<and> bucket vw w = Inr l)"
    and ws: "out_words example_board vw (build_possible_index_moves Map.empty)
               sorted_list_of_set sorted_list_of_set = Inr ws"
    by blast
  have p: "set [5, 6] \<subseteq> {0..15::int}" "2 \<le> length [5, 6 :: int]"
    by simp_all
  have cw: "cur_word example_board [5, 6] [] = Inr ''qui''"
    by (simp add: getitem_def py_index_def example_board_def)
  from keys p obtain w d l where
    "cur_word example_board [5, 6] [] = Inr w" "vw (w ! 0) = Some d" "d (w ! 1) = Some l"
    "bucket vw w = Inr l"
    by blast
  with cw have "vw (CHR ''q'') = Some d" "d (CHR ''u'') = Some l" "bucket vw ''qui'' = Inr l"
    by auto
  with vw ws p cw example_valid example_file example_lowercase
    iterates_sorted_list_of_set [where 'a = int] iterates_sorted_list_of_set [where 'a = string]
  show ?thesis by blast
qed

section \<open>The check of the arguments\<close>

lemma check_input_args_cases:
  "check_input_args os dict_arg board_arg =
     (if \<not> resolvable os dict_arg then Inl (IOError ''Dictionary file not found.'')
      else if \<not> resolvable os board_arg then Inl (IOError ''Board file not found.'')
      else Inr (resolved os dict_arg, resolved os board_arg))"
  by (simp add: check_input_args_def resolvable_def resolved_def Let_def)

text \<open>
  C9. \<open>check_input_args\<close> raises an IOError exactly when one of the two arguments is
  neither an existing file nor the name of a file of the data directory, the dictionary
  being checked first; it raises nothing else. Otherwise it returns the two resolved
  paths, which are existing files. The script runs the solver on these resolved paths,
  and when the check raises, the script ends with that error: the solver is not run.
\<close>

theorem check_input_args_missing_resource:
  "((\<exists>msg. check_input_args os dict_arg board_arg = Inl (IOError msg)) \<longleftrightarrow>
      \<not> resolvable os dict_arg \<or> \<not> resolvable os board_arg) \<and>
   (\<forall>e. check_input_args os dict_arg board_arg = Inl e \<longrightarrow>
      e = (if \<not> resolvable os dict_arg then IOError ''Dictionary file not found.''
           else IOError ''Board file not found.'')) \<and>
   (resolvable os dict_arg \<and> resolvable os board_arg \<longrightarrow>
      check_input_args os dict_arg board_arg = Inr (resolved os dict_arg, resolved os board_arg) \<and>
      isfile os (resolved os dict_arg) \<and> isfile os (resolved os board_arg)) \<and>
   (length argv = 4 \<longrightarrow>
      (\<forall>e. check_input_args os (argv ! 1) (argv ! 2) = Inl e \<longrightarrow>
           main os cache iter list_of argv = Inl e) \<and>
      (\<forall>d b. check_input_args os (argv ! 1) (argv ! 2) = Inr (d, b) \<longrightarrow>
           main os cache iter list_of argv =
             (case BoggleBoard os cache iter list_of d b (argv ! 3) of
                Inl e \<Rightarrow> Inl e | Inr (os', cache') \<Rightarrow> Inr (0, os'))))"
proof (intro conjI)
  show "(\<exists>msg. check_input_args os dict_arg board_arg = Inl (IOError msg)) \<longleftrightarrow>
      \<not> resolvable os dict_arg \<or> \<not> resolvable os board_arg"
    by (simp add: check_input_args_cases)
  show "\<forall>e. check_input_args os dict_arg board_arg = Inl e \<longrightarrow>
      e = (if \<not> resolvable os dict_arg then IOError ''Dictionary file not found.''
           else IOError ''Board file not found.'')"
    by (auto simp: check_input_args_cases split: if_splits)
  show "resolvable os dict_arg \<and> resolvable os board_arg \<longrightarrow>
      check_input_args os dict_arg board_arg = Inr (resolved os dict_arg, resolved os board_arg) \<and>
      isfile os (resolved os dict_arg) \<and> isfile os (resolved os board_arg)"
    by (auto simp: check_input_args_cases resolvable_def resolved_def)
  show "length argv = 4 \<longrightarrow>
      (\<forall>e. check_input_args os (argv ! 1) (argv ! 2) = Inl e \<longrightarrow>
           main os cache iter list_of argv = Inl e) \<and>
      (\<forall>d b. check_input_args os (argv ! 1) (argv ! 2) = Inr (d, b) \<longrightarrow>
           main os cache iter list_of argv =
             (case BoggleBoard os cache iter list_of d b (argv ! 3) of
                Inl e \<Rightarrow> Inl e | Inr (os', cache') \<Rightarrow> Inr (0, os')))"
    by (simp add: main_def del: One_nat_def)
qed

theorem check_input_args_missing_resource_witness:
  "resolvable example_os ''dictionary.txt'' \<and> resolvable example_os ''board.txt'' \<and>
   check_input_args example_os ''dictionary.txt'' ''board.txt'' =
     Inr (''data/dictionary.txt'', ''board.txt'') \<and>
   \<not> resolvable example_os ''bad_dict_file.txt'' \<and>
   check_input_args example_os ''bad_dict_file.txt'' ''board.txt'' =
     Inl (IOError ''Dictionary file not found.'') \<and>
   \<not> resolvable example_os ''bad_board_file.txt'' \<and>
   check_input_args example_os ''data/dictionary.txt'' ''bad_board_file.txt'' =
     Inl (IOError ''Board file not found.'') \<and>
   length [''BoggleSolver.py'', ''bad_dict_file.txt'', ''board.txt'', ''out.txt''] = 4 \<and>
   main example_os Map.empty sorted_list_of_set sorted_list_of_set
     [''BoggleSolver.py'', ''bad_dict_file.txt'', ''board.txt'', ''out.txt''] =
     Inl (IOError ''Dictionary file not found.'')"
proof -
  have r: "resolvable example_os ''dictionary.txt''" "resolvable example_os ''board.txt''"
    "\<not> resolvable example_os ''bad_dict_file.txt''"
    "\<not> resolvable example_os ''bad_board_file.txt''"
    "resolvable example_os ''data/dictionary.txt''"
    by (simp_all add: resolvable_def isfile_def example_os_def)
  have d: "resolved example_os ''dictionary.txt'' = ''data/dictionary.txt''"
    "resolved example_os ''board.txt'' = ''board.txt''"
    by (simp_all add: resolved_def isfile_def example_os_def)
  let ?argv = "[''BoggleSolver.py'', ''bad_dict_file.txt'', ''board.txt'', ''out.txt'']"
  note t = check_input_args_missing_resource [where os = example_os and argv = ?argv
      and cache = Map.empty and iter = sorted_list_of_set and list_of = sorted_list_of_set]
  note raises = t [THEN conjunct1]
    and which = t [THEN conjunct2, THEN conjunct1]
    and returns = t [THEN conjunct2, THEN conjunct2, THEN conjunct1]
    and script = t [THEN conjunct2, THEN conjunct2, THEN conjunct2]
  from returns [of "''dictionary.txt''" "''board.txt''", THEN mp, OF conjI [OF r(1) r(2)]]
  have ok: "check_input_args example_os ''dictionary.txt'' ''board.txt'' =
     Inr (''data/dictionary.txt'', ''board.txt'')"
    unfolding d by (rule conjunct1)
  from raises [of "''bad_dict_file.txt''" "''board.txt''", THEN iffD2, OF disjI1 [OF r(3)]]
  obtain msg where "check_input_args example_os ''bad_dict_file.txt'' ''board.txt'' =
     Inl (IOError msg)" ..
  with which [of "''bad_dict_file.txt''" "''board.txt''", THEN spec, THEN mp, OF this] r(3)
  have bad_dict: "check_input_args example_os ''bad_dict_file.txt'' ''board.txt'' =
     Inl (IOError ''Dictionary file not found.'')"
    by simp
  from raises [of "''data/dictionary.txt''" "''bad_board_file.txt''", THEN iffD2,
      OF disjI2 [OF r(4)]]
  obtain msg' where "check_input_args example_os ''data/dictionary.txt'' ''bad_board_file.txt'' =
     Inl (IOError msg')" ..
  with which [of "''data/dictionary.txt''" "''bad_board_file.txt''", THEN spec, THEN mp, OF this]
    r(5)
  have bad_board: "check_input_args example_os ''data/dictionary.txt'' ''bad_board_file.txt'' =
     Inl (IOError ''Board file not found.'')"
    by simp
  have a: "?argv ! 1 = ''bad_dict_file.txt''" "?argv ! 2 = ''board.txt''" "length ?argv = 4"
    by simp_all
  from script [THEN mp, OF a(3), THEN conjunct1,
      THEN spec, THEN mp, unfolded a, OF bad_dict]
  have "main example_os Map.empty sorted_list_of_set sorted_list_of_set ?argv =
     Inl (IOError ''Dictionary file not found.'')" .
  with r ok bad_dict bad_board show ?thesis
    by simp
qed

section \<open>A loaded board is a validated board\<close>

lemma letter_codes:
  "CHR ''a'' \<le> c \<longleftrightarrow> 97 \<le> (of_char c :: nat)" "c \<le> CHR ''z'' \<longleftrightarrow> (of_char c :: nat) \<le> 122"
  "CHR ''A'' \<le> c \<longleftrightarrow> 65 \<le> (of_char c :: nat)" "c \<le> CHR ''Z'' \<longleftrightarrow> (of_char c :: nat) \<le> 90"
  by (simp_all add: less_eq_char_def)

lemma alphabet_codes: "\<forall>n\<in>set [97..<123]. char_of (n::nat) \<in> set alphabet"
  by code_simp

lemma lowercase_in_alphabet:
  assumes "CHR ''a'' \<le> c" and "c \<le> CHR ''z''"
  shows "c \<in> set alphabet"
proof -
  from assms have "(of_char c :: nat) \<in> {97..<123}"
    by (simp add: letter_codes)
  then have "(of_char c :: nat) \<in> set [97..<123]"
    by (simp only: set_upt)
  with alphabet_codes have "char_of (of_char c :: nat) \<in> set alphabet"
    by blast
  then show ?thesis
    by simp
qed

lemma lower_not_upper:
  assumes "c \<in> set (lower s)" and "CHR ''A'' \<le> c" and "c \<le> CHR ''Z''"
  shows False
proof -
  from assms(1) have "c \<in> (\<lambda>c. if CHR ''A'' \<le> c \<and> c \<le> CHR ''Z''
                       then char_of (of_char c + (32::nat)) else c) ` set s"
    by (simp add: lower_def)
  then obtain c0 where
    c: "c = (if CHR ''A'' \<le> c0 \<and> c0 \<le> CHR ''Z'' then char_of (of_char c0 + (32::nat)) else c0)"
    by (rule imageE)
  show False
  proof (cases "CHR ''A'' \<le> c0 \<and> c0 \<le> CHR ''Z''")
    case True
    then have "65 \<le> (of_char c0 :: nat)" "(of_char c0 :: nat) \<le> 90"
      by (simp_all add: letter_codes)
    moreover from True c have "(of_char c :: nat) = (of_char c0 + 32) mod 256"
      by simp
    ultimately have "(of_char c :: nat) = of_char c0 + 32"
      by simp
    with assms(3) \<open>65 \<le> of_char c0\<close> show False
      by (simp add: letter_codes)
  next
    case False
    with c assms(2,3) show False by simp
  qed
qed

lemma load_board_valid:
  assumes "load_board os board_arg = Inr board"
  shows "valid_board board"
proof -
  from assms obtain raw where
    b: "board = filter (\<lambda>c. \<not> isspace c) (lower raw)" "length board = 16" "isalpha board"
    by (auto simp: load_board_def Let_def split: if_splits)
  have "c \<in> set alphabet" if "c \<in> set board" for c
  proof -
    from that b(1) have "c \<in> set (lower raw)"
      by simp
    with lower_not_upper [of c raw] have "\<not> (CHR ''A'' \<le> c \<and> c \<le> CHR ''Z'')"
      by blast
    with b(3) that have "CHR ''a'' \<le> c \<and> c \<le> CHR ''z''"
      by (auto simp: isalpha_def)
    then show ?thesis
      by (simp add: lowercase_in_alphabet)
  qed
  with b(2) show ?thesis
    by (auto simp: valid_board_def)
qed

lemma example_load_board: "load_board example_os ''board.txt'' = Inr example_board"
  by code_simp

section \<open>Two runs on the same input\<close>

lemma append_words_keys:
  assumes "append_words vw ws = Inr vw'" and "\<forall>w\<in>set ws. 2 \<le> length w"
  shows "\<forall>w\<in>set ws. lookup2 vw (w ! 0) (w ! 1) \<noteq> None"
  using assms
proof (induction ws arbitrary: vw)
  case Nil
  then show ?case by simp
next
  case (Cons word ws)
  from Cons.prems(2) have len: "2 \<le> length word"
    by simp
  from Cons.prems(1) obtain d l where d: "vw (word ! 0) = Some d" and l: "d (word ! 1) = Some l"
    and rest: "append_words (vw(word ! 0 \<mapsto> d(word ! 1 \<mapsto> l @ [word]))) ws = Inr vw'"
    by (auto simp: getitem_0 [OF len] getitem_1 [OF len] split: option.splits
        simp del: One_nat_def)
  let ?vw = "vw(word ! 0 \<mapsto> d(word ! 1 \<mapsto> l @ [word]))"
  have here: "lookup2 vw (word ! 0) (word ! 1) = Some l"
    using d l by (simp add: lookup2_def)
  have upd: "lookup2 ?vw c0 c1 =
               (if c0 = word ! 0 \<and> c1 = word ! 1 then Some (l @ [word]) else lookup2 vw c0 c1)"
    for c0 c1
    using d l by (auto simp: lookup2_def)
  from Cons.prems(2) have "\<forall>w\<in>set ws. 2 \<le> length w"
    by simp
  from Cons.IH [OF rest this]
  have "\<forall>w\<in>set ws. lookup2 vw (w ! 0) (w ! 1) \<noteq> None"
    unfolding upd using here by (auto split: if_splits simp del: One_nat_def)
  with here show ?case
    by (simp del: One_nat_def)
qed

lemma load_dictionary_success:
  assumes "load_dictionary os dict_file board = Inr vw"
  shows "\<exists>text. files os dict_file = Some text \<and>
           indexes vw (set (present_letters board))
             (unsorted_valid_words board (dict_words text))"
proof -
  from assms obtain dtext where dtext: "files os dict_file = Some dtext"
    and app: "append_words (empty_valid_words (present_letters board))
                (unsorted_valid_words board (dict_words dtext)) = Inr vw"
    by (auto simp: load_dictionary_def split: option.splits)
  let ?W = "unsorted_valid_words board (dict_words dtext)"
  have len: "\<forall>w\<in>set ?W. 2 \<le> length w"
    by (auto simp: unsorted_valid_words_iff)
  from append_words_keys [OF app len] len
  have "\<forall>w\<in>set ?W. 2 \<le> length w \<and>
          lookup2 (empty_valid_words (present_letters board)) (w ! 0) (w ! 1) \<noteq> None"
    by blast
  from append_words_lookup2 [OF this] app
  have "\<forall>c0 c1. lookup2 vw c0 c1 =
          map_option (\<lambda>l. l @ filter (\<lambda>w. w ! 0 = c0 \<and> w ! 1 = c1) ?W)
            (lookup2 (empty_valid_words (present_letters board)) c0 c1)"
    by auto
  then have "indexes vw (set (present_letters board)) ?W"
    unfolding indexes_def lookup2_empty_valid_words by simp
  with dtext show ?thesis
    by blast
qed

lemma out_words_loaded:
  assumes "valid_board board" and "load_dictionary os dict_file board = Inr vw"
  shows "\<exists>ws. \<forall>cache iter list_of. iterates iter \<and> iterates list_of \<longrightarrow>
           out_words board vw (build_possible_index_moves cache) iter list_of = Inr ws"
proof -
  from load_dictionary_success [OF assms(2)] obtain dtext where
    idx: "indexes vw (set (present_letters board)) (unsorted_valid_words board (dict_words dtext))"
    by blast
  let ?W = "unsorted_valid_words board (dict_words dtext)"
  have long: "\<forall>w\<in>set ?W. 3 \<le> length w"
    by (auto simp: unsorted_valid_words_iff)
  have "out_words board vw (build_possible_index_moves cache) iter list_of =
          Inr (sorted_list_of_set {w \<in> set ?W. traceable board w})"
    if "iterates iter" "iterates list_of" for cache iter list_of
  proof -
    have "search_setup board vw ?W (build_possible_index_moves cache) iter"
      unfolding search_setup_def using assms(1) idx long build_table that(1) by blast
    from out_words_traceable [OF this that(2)] show ?thesis .
  qed
  then show ?thesis
    by blast
qed

text \<open>
  C8. Two runs of the constructor on the same file system and arguments end alike,
  whatever the class dictionary held before each run and in whatever order the sets of
  moves and the set of found words are iterated: either both raise the same error, or
  both leave the same file system, with the same output file. In particular the second
  run may start from the dictionary that the first one built. The sorted output
  sequence is the same as well.
\<close>

theorem solve_deterministic:
  assumes "iterates iter1" and "iterates list_of1" and "iterates iter2" and "iterates list_of2"
  shows "((\<exists>e. BoggleBoard os cache1 iter1 list_of1 dict_file board_arg out_file = Inl e \<and>
               BoggleBoard os cache2 iter2 list_of2 dict_file board_arg out_file = Inl e) \<or>
          (\<exists>os'. BoggleBoard os cache1 iter1 list_of1 dict_file board_arg out_file =
                   Inr (os', build_possible_index_moves cache1) \<and>
                 BoggleBoard os cache2 iter2 list_of2 dict_file board_arg out_file =
                   Inr (os', build_possible_index_moves cache2))) \<and>
         (\<forall>board vw. load_board os board_arg = Inr board \<and>
              load_dictionary os dict_file board = Inr vw \<longrightarrow>
            (\<exists>ws. out_words board vw (build_possible_index_moves cache1) iter1 list_of1 = Inr ws \<and>
                  out_words board vw (build_possible_index_moves cache2) iter2 list_of2 = Inr ws))"
proof -
  have same: "\<exists>ws. out_words board vw (build_possible_index_moves cache1) iter1 list_of1 = Inr ws \<and>
                out_words board vw (build_possible_index_moves cache2) iter2 list_of2 = Inr ws"
    if "load_board os board_arg = Inr board" "load_dictionary os dict_file board = Inr vw"
    for board vw
    using out_words_loaded [OF load_board_valid [OF that(1)] that(2)] assms by blast
  have "(\<exists>e. BoggleBoard os cache1 iter1 list_of1 dict_file board_arg out_file = Inl e \<and>
               BoggleBoard os cache2 iter2 list_of2 dict_file board_arg out_file = Inl e) \<or>
          (\<exists>os'. BoggleBoard os cache1 iter1 list_of1 dict_file board_arg out_file =
                   Inr (os', build_possible_index_moves cache1) \<and>
                 BoggleBoard os cache2 iter2 list_of2 dict_file board_arg out_file =
                   Inr (os', build_possible_index_moves cache2))"
  proof (cases "load_board os board_arg")
    case (Inl e)
    then show ?thesis by (simp add: BoggleBoard_def)
  next
    case board: (Inr board)
    show ?thesis
    proof (cases "load_dictionary os dict_file board")
      case (Inl e)
      with board show ?thesis by (simp add: BoggleBoard_def)
    next
      case vw: (Inr vw)
      from same [OF board vw] obtain ws where
        "out_words board vw (build_possible_index_moves cache1) iter1 list_of1 = Inr ws"
        "out_words board vw (build_possible_index_moves cache2) iter2 list_of2 = Inr ws"
        by blast
      with board vw show ?thesis
        by (simp add: BoggleBoard_def solve_board_def)
    qed
  qed
  with same show ?thesis
    by blast
qed

lemma iterates_rev_sorted_list_of_set:
  "iterates (rev \<circ> sorted_list_of_set :: 'a::linorder set \<Rightarrow> 'a list)"
  by (simp add: iterates_def)

lemma example_first_run:
  "BoggleBoard example_os Map.empty sorted_list_of_set sorted_list_of_set
     ''data/dictionary.txt'' ''board.txt'' ''out.txt'' =
   Inr (example_os\<lparr>files := (files example_os)(''out.txt'' \<mapsto> ''quiv\<newline>via\<newline>'')\<rparr>,
        build_possible_index_moves Map.empty)"
proof -
  from example_run [of Map.empty] obtain vw where
    "load_dictionary example_os ''data/dictionary.txt'' example_board = Inr vw"
    "out_words example_board vw (build_possible_index_moves Map.empty)
       sorted_list_of_set sorted_list_of_set = Inr [''quiv'', ''via'']"
    by blast
  moreover have "writable example_os ''out.txt''"
    by (simp add: example_os_def)
  moreover have "output_text [''quiv'', ''via''] = ''quiv\<newline>via\<newline>''"
    by (simp add: output_text_def)
  ultimately show ?thesis
    by (simp add: BoggleBoard_def solve_board_def example_load_board)
qed

theorem solve_deterministic_witness:
  "iterates (sorted_list_of_set :: int set \<Rightarrow> int list) \<and>
   iterates (sorted_list_of_set :: string set \<Rightarrow> string list) \<and>
   iterates (rev \<circ> sorted_list_of_set :: int set \<Rightarrow> int list) \<and>
   iterates (rev \<circ> sorted_list_of_set :: string set \<Rightarrow> string list) \<and>
   (\<exists>os'. BoggleBoard example_os Map.empty sorted_list_of_set sorted_list_of_set
            ''data/dictionary.txt'' ''board.txt'' ''out.txt'' =
            Inr (os', build_possible_index_moves Map.empty) \<and>
          BoggleBoard example_os (build_possible_index_moves Map.empty)
            (rev \<circ> sorted_list_of_set) (rev \<circ> sorted_list_of_set)
            ''data/dictionary.txt'' ''board.txt'' ''out.txt'' =
            Inr (os', build_possible_index_moves (build_possible_index_moves Map.empty)) \<and>
          files os' ''out.txt'' = Some ''quiv\<newline>via\<newline>'')"
proof -
  note it = iterates_sorted_list_of_set [where 'a = int]
    iterates_sorted_list_of_set [where 'a = string]
    iterates_rev_sorted_list_of_set [where 'a = int]
    iterates_rev_sorted_list_of_set [where 'a = string]
  let ?os1 = "example_os\<lparr>files := (files example_os)(''out.txt'' \<mapsto> ''quiv\<newline>via\<newline>'')\<rparr>"
  from solve_deterministic [OF it, of example_os Map.empty "''data/dictionary.txt''"
      "''board.txt''" "''out.txt''" "build_possible_index_moves Map.empty", THEN conjunct1]
  have "\<exists>os'. BoggleBoard example_os Map.empty sorted_list_of_set sorted_list_of_set
            ''data/dictionary.txt'' ''board.txt'' ''out.txt'' =
            Inr (os', build_possible_index_moves Map.empty) \<and>
          BoggleBoard example_os (build_possible_index_moves Map.empty)
            (rev \<circ> sorted_list_of_set) (rev \<circ> sorted_list_of_set)
            ''data/dictionary.txt'' ''board.txt'' ''out.txt'' =
            Inr (os', build_possible_index_moves (build_possible_index_moves Map.empty))"
    unfolding example_first_run by simp
  then obtain os' where
    r1: "BoggleBoard example_os Map.empty sorted_list_of_set sorted_list_of_set
            ''data/dictionary.txt'' ''board.txt'' ''out.txt'' =
            Inr (os', build_possible_index_moves Map.empty)"
    and r2: "BoggleBoard example_os (build_possible_index_moves Map.empty)
            (rev \<circ> sorted_list_of_set) (rev \<circ> sorted_list_of_set)
            ''data/dictionary.txt'' ''board.txt'' ''out.txt'' =
            Inr (os', build_possible_index_moves (build_possible_index_moves Map.empty))"
    by blast
  from r1 have "os' = ?os1"
    unfolding example_first_run by simp
  then have "files os' ''out.txt'' = Some ''quiv\<newline>via\<newline>''"
    by simp
  with r1 r2 it show ?thesis
    by blast
qed

section \<open>Termination, depth and branching of the search\<close>

lemma available_moves_subset:
  assumes "available_moves used index ms = Inr a"
  shows "set a \<subseteq> set ms \<and> (\<forall>m\<in>set a. getitem used (index + m) = Inr False) \<and>
         length a \<le> length ms"
  using assms
proof (induction ms arbitrary: a)
  case Nil
  then show ?case by simp
next
  case (Cons m ms)
  from Cons.prems obtain u r where u: "getitem used (index + m) = Inr u"
    and r: "available_moves used index ms = Inr r" and a: "a = (if \<not> u then m # r else r)"
    by (auto split: sum.splits)
  from Cons.IH [OF r] u a show ?case
    by auto
qed

lemma getitem_unused:
  assumes "getitem used i = Inr False"
  shows "\<exists>j. py_index used i = Some j \<and> j < length used \<and> \<not> used ! j"
  using assms by (auto simp: getitem_def py_index_def split: option.splits if_splits)

lemma mark_unused:
  assumes "j < length used" and "\<not> used ! j"
  shows "Suc (length (filter Not (used[j := True]))) = length (filter Not used)"
  using assms
proof (induction used arbitrary: j)
  case Nil
  then show ?case by simp
next
  case (Cons b bs)
  show ?case
  proof (cases j)
    case 0
    with Cons.prems show ?thesis by simp
  next
    case (Suc n)
    with Cons.IH [of n] Cons.prems show ?thesis by auto
  qed
qed

lemma setitem_marks:
  assumes "getitem used i = Inr False"
  shows "\<exists>used'. setitem used i True = Inr used' \<and> length used' = length used \<and>
           Suc (length (filter Not used')) = length (filter Not used)"
proof -
  from getitem_unused [OF assms] obtain j where
    "py_index used i = Some j" "j < length used" "\<not> used ! j"
    by blast
  with mark_unused [of j used] show ?thesis
    by (simp add: setitem_def)
qed

lemma find_words_rel_step:
  assumes "find_words_rel (board', vw', pim', iter', index', used', path', fw')
             (board, vw, pim, iter, index, used, path, fw)"
  shows "board' = board \<and> vw' = vw \<and> pim' = pim \<and> iter' = iter \<and> path' = path @ [index] \<and>
         setitem used index True = Inr used' \<and>
         (\<exists>moves avail. pim index = Some moves \<and>
            available_moves used' index (iter moves) = Inr avail \<and> index' - index \<in> set avail) \<and>
         getitem used' index' = Inr False"
  by (rule find_words_rel.cases [OF assms]) (use available_moves_subset in fastforce)


lemma find_words_rel_decreases:
  assumes "find_words_rel (board', vw', pim', iter', index', used', path', fw')
             (board, vw, pim, iter, index, used, path, fw)"
  shows "\<exists>u u'. setitem used index True = Inr u \<and> setitem used' index' True = Inr u' \<and>
           length (filter Not u') < length (filter Not u)"
proof -
  from find_words_rel_step [OF assms]
  have "setitem used index True = Inr used'" "getitem used' index' = Inr False"
    by simp_all
  with setitem_marks [of used' index'] show ?thesis
    by auto
qed

lemma find_words_rel_wf: "wfp find_words_rel"
proof (rule wfp_if_convertible_to_nat)
  fix x y :: "string \<times> valid_words \<times> (int \<rightharpoonup> int set) \<times> (int set \<Rightarrow> int list) \<times>
              int \<times> bool list \<times> int list \<times> string set"
  assume r: "find_words_rel x y"
  obtain board' vw' pim' iter' index' used' path' fw' where
    x: "x = (board', vw', pim', iter', index', used', path', fw')"
    by (cases x) auto
  obtain board vw pim iter index used path fw where
    y: "y = (board, vw, pim, iter, index, used, path, fw)"
    by (cases y) auto
  from find_words_rel_decreases [OF r [unfolded x y]]
  show "(\<lambda>(board, vw, pim, iter, index, used, path, fw).
           length (filter Not (case setitem used index True of Inl e \<Rightarrow> used | Inr u \<Rightarrow> u))) x
        < (\<lambda>(board, vw, pim, iter, index, used, path, fw).
           length (filter Not (case setitem used index True of Inl e \<Rightarrow> used | Inr u \<Rightarrow> u))) y"
    unfolding x y by auto
qed

lemma find_words_depth:
  assumes "(find_words_rel ^^ n) (board', vw', pim', iter', index', used', path', fw')
             (board, vw, pim, iter, i, replicate 16 False, [], fw)"
  shows "n < 16 \<and> length path' = n \<and> length used' = 16 \<and>
         length (filter Not used') = 16 - n \<and>
         (\<forall>j. py_index used' index' = Some j \<longrightarrow> \<not> used' ! j)"
  using assms
proof (induction n arbitrary: board' vw' pim' iter' index' used' path' fw')
  case 0
  then have "used' = replicate 16 False" "path' = []"
    by simp_all
  then show ?case
    by (auto simp: py_index_def split: if_splits)
next
  case (Suc n)
  from Suc.prems obtain y where
    step: "find_words_rel (board', vw', pim', iter', index', used', path', fw') y"
    and chain: "(find_words_rel ^^ n) y (board, vw, pim, iter, i, replicate 16 False, [], fw)"
    by (rule relpowp_Suc_E2)
  obtain b v p it idx u pa f where y: "y = (b, v, p, it, idx, u, pa, f)"
    by (cases y) auto
  from Suc.IH [OF chain [unfolded y]]
  have n: "n < 16" and pa: "length pa = n" and lu: "length u = 16"
    and cu: "length (filter Not u) = 16 - n"
    and free: "\<forall>j. py_index u idx = Some j \<longrightarrow> \<not> u ! j"
    by simp_all
  from find_words_rel_step [OF step [unfolded y]]
  have path': "path' = pa @ [idx]" and si: "setitem u idx True = Inr used'"
    and gi: "getitem used' index' = Inr False"
    by simp_all
  from si obtain j where j: "py_index u idx = Some j" "used' = u[j := True]"
    by (auto simp: setitem_def split: option.splits)
  then have "j < length u"
    by (auto simp: py_index_def split: if_splits)
  from mark_unused [OF this] free j
  have cu': "Suc (length (filter Not used')) = length (filter Not u)"
    by simp
  from getitem_unused [OF gi] obtain k where
    k: "py_index used' index' = Some k" "k < length used'" "\<not> used' ! k"
    by blast
  then have "used' ! k \<in> set (filter Not used')"
    using nth_mem [of k used'] by simp
  then have "0 < length (filter Not used')"
    by (rule length_pos_if_in_set)
  with cu cu' have "Suc n < 16" "length (filter Not used') = 16 - Suc n"
    by arith+
  moreover have "length path' = Suc n" "length used' = 16"
    using pa path' lu j(2) by simp_all
  moreover have "\<forall>j. py_index used' index' = Some j \<longrightarrow> \<not> used' ! j"
    using k by simp
  ultimately show ?case
    by blast
qed


lemma find_words_branching:
  assumes "iterates iter" and "0 \<le> index" and "index \<le> 15"
  shows "finite {(index', used', path'). \<exists>fw'.
           find_words_rel
             (board, vw, build_possible_index_moves cache, iter, index', used', path', fw')
             (board, vw, build_possible_index_moves cache, iter, index, used, path, fw)} \<and>
         card {(index', used', path'). \<exists>fw'.
           find_words_rel
             (board, vw, build_possible_index_moves cache, iter, index', used', path', fw')
             (board, vw, build_possible_index_moves cache, iter, index, used, path, fw)} \<le> 8"
proof -
  let ?S = "{(index', used', path'). \<exists>fw'.
           find_words_rel
             (board, vw, build_possible_index_moves cache, iter, index', used', path', fw')
             (board, vw, build_possible_index_moves cache, iter, index, used, path, fw)}"
  let ?moves = "get_possible_index_moves index"
  let ?u = "case setitem used index True of Inl e \<Rightarrow> used | Inr u \<Rightarrow> u"
  have fin: "finite ?moves"
    unfolding index_moves_eq by simp
  with assms(1) have it: "set (iter ?moves) = ?moves"
    by (simp add: iterates_def)
  have sub: "?S \<subseteq> (\<lambda>m. (index + m, ?u, path @ [index])) ` ?moves"
  proof
    fix c assume "c \<in> ?S"
    then obtain index' used' path' fw' where c: "c = (index', used', path')"
      and r: "find_words_rel
             (board, vw, build_possible_index_moves cache, iter, index', used', path', fw')
             (board, vw, build_possible_index_moves cache, iter, index, used, path, fw)"
      by blast
    from find_words_rel_step [OF r] obtain moves avail where
      p: "path' = path @ [index]" and u: "setitem used index True = Inr used'"
      and m: "build_possible_index_moves cache index = Some moves"
      and a: "available_moves used' index (iter moves) = Inr avail" "index' - index \<in> set avail"
      by blast
    from m assms(2,3) have "moves = ?moves"
      by (simp add: build_possible_index_moves_apply)
    with a available_moves_subset [OF a(1)] it have "index' - index \<in> ?moves"
      by blast
    moreover from c p u have "c = (index + (index' - index), ?u, path @ [index])"
      by simp
    ultimately show "c \<in> (\<lambda>m. (index + m, ?u, path @ [index])) ` ?moves"
      by (rule rev_image_eqI)
  qed
  have "card ?moves \<le> card (set possible_moves)"
    by (rule card_mono) (auto simp: moves_iff)
  also have "\<dots> \<le> 8"
    using card_length [of possible_moves] by (simp add: possible_moves_def)
  finally have "card ?moves \<le> 8" .
  moreover have "card ?S \<le> card ((\<lambda>m. (index + m, ?u, path @ [index])) ` ?moves)"
    using sub fin by (intro card_mono) simp_all
  moreover have "card ((\<lambda>m. (index + m, ?u, path @ [index])) ` ?moves) \<le> card ?moves"
    using fin by (rule card_image_le)
  moreover have "finite ?S"
    using fin sub by (rule finite_surj)
  ultimately show ?thesis
    by simp
qed

text \<open>
  C7. \<open>find_words_rel callee caller\<close> is the call relation of \<open>find_words\<close>: the body
  at the arguments \<open>caller\<close> reaches the recursive call with the arguments \<open>callee\<close>.
  It is well-founded, so every call terminates, for every board and index. A recursive
  call extends the path by the caller's cell, takes the caller's flags with that cell
  set, and enters a cell that is reached by a move of the table and whose flag is not
  set; setting it leaves strictly fewer unset flags. Below a call of \<open>_solve_board\<close>
  (16 unset flags, empty path) at most 15 calls are nested, so the depth is at most 16;
  and with the table of moves a call at a cell of the grid makes at most 8 calls.
\<close>

theorem find_words_terminates:
  "wfp find_words_rel \<and>
   (\<forall>board vw pim iter index used path fw board' vw' pim' iter' index' used' path' fw'.
      find_words_rel (board', vw', pim', iter', index', used', path', fw')
        (board, vw, pim, iter, index, used, path, fw) \<longrightarrow>
      path' = path @ [index] \<and> setitem used index True = Inr used' \<and>
      (\<exists>moves. pim index = Some moves \<and> index' - index \<in> set (iter moves)) \<and>
      getitem used' index' = Inr False \<and>
      (\<exists>u'. setitem used' index' True = Inr u' \<and>
            length (filter Not u') < length (filter Not used'))) \<and>
   (\<forall>n c board vw pim iter i fw.
      (find_words_rel ^^ n) c (board, vw, pim, iter, i, replicate 16 False, [], fw) \<longrightarrow>
      n < 16) \<and>
   (\<forall>board vw cache iter index used path fw.
      iterates iter \<and> 0 \<le> index \<and> index \<le> 15 \<longrightarrow>
      finite {(index', used', path'). \<exists>fw'.
        find_words_rel
          (board, vw, build_possible_index_moves cache, iter, index', used', path', fw')
          (board, vw, build_possible_index_moves cache, iter, index, used, path, fw)} \<and>
      card {(index', used', path'). \<exists>fw'.
        find_words_rel
          (board, vw, build_possible_index_moves cache, iter, index', used', path', fw')
          (board, vw, build_possible_index_moves cache, iter, index, used, path, fw)} \<le> 8)"
proof -
  have step: "\<forall>board vw pim iter index used path fw board' vw' pim' iter' index' used' path' fw'.
      find_words_rel (board', vw', pim', iter', index', used', path', fw')
        (board, vw, pim, iter, index, used, path, fw) \<longrightarrow>
      path' = path @ [index] \<and> setitem used index True = Inr used' \<and>
      (\<exists>moves. pim index = Some moves \<and> index' - index \<in> set (iter moves)) \<and>
      getitem used' index' = Inr False \<and>
      (\<exists>u'. setitem used' index' True = Inr u' \<and>
            length (filter Not u') < length (filter Not used'))"
  proof (intro allI impI conjI)
    fix board vw pim iter index used path fw board' vw' pim' iter' index' used' path' fw'
    assume r: "find_words_rel (board', vw', pim', iter', index', used', path', fw')
        (board, vw, pim, iter, index, used, path, fw)"
    from find_words_rel_step [OF r] obtain moves avail where
      s: "path' = path @ [index]" "setitem used index True = Inr used'"
        "pim index = Some moves" "available_moves used' index (iter moves) = Inr avail"
        "index' - index \<in> set avail" "getitem used' index' = Inr False"
      by blast
    show "path' = path @ [index]" "setitem used index True = Inr used'"
      "getitem used' index' = Inr False"
      by (fact s)+
    from s(3,5) available_moves_subset [OF s(4)]
    show "\<exists>moves. pim index = Some moves \<and> index' - index \<in> set (iter moves)"
      by blast
    from setitem_marks [OF s(6)]
    show "\<exists>u'. setitem used' index' True = Inr u' \<and>
            length (filter Not u') < length (filter Not used')"
      by auto
  qed
  have depth: "\<forall>n c board vw pim iter i fw.
      (find_words_rel ^^ n) c (board, vw, pim, iter, i, replicate 16 False, [], fw) \<longrightarrow>
      n < 16"
  proof (intro allI impI)
    fix n board vw pim iter i fw
      and c :: "string \<times> valid_words \<times> (int \<rightharpoonup> int set) \<times> (int set \<Rightarrow> int list) \<times>
              int \<times> bool list \<times> int list \<times> string set"
    assume chain: "(find_words_rel ^^ n) c (board, vw, pim, iter, i, replicate 16 False, [], fw)"
    obtain board' vw' pim' iter' index' used' path' fw' where
      "c = (board', vw', pim', iter', index', used', path', fw')"
      by (cases c) auto
    with find_words_depth chain show "n < 16"
      by blast
  qed
  have branching: "\<forall>board vw cache iter index used path fw.
      iterates iter \<and> 0 \<le> index \<and> index \<le> 15 \<longrightarrow>
      finite {(index', used', path'). \<exists>fw'.
        find_words_rel
          (board, vw, build_possible_index_moves cache, iter, index', used', path', fw')
          (board, vw, build_possible_index_moves cache, iter, index, used, path, fw)} \<and>
      card {(index', used', path'). \<exists>fw'.
        find_words_rel
          (board, vw, build_possible_index_moves cache, iter, index', used', path', fw')
          (board, vw, build_possible_index_moves cache, iter, index, used, path, fw)} \<le> 8"
    using find_words_branching by blast
  from find_words_rel_wf step depth branching show ?thesis
    by (intro conjI)
qed

lemma example_call:
  "find_words_rel
     (example_board, Map.empty, build_possible_index_moves Map.empty, sorted_list_of_set,
      6, (replicate 16 False)[5 := True], [5], {})
     (example_board, Map.empty, build_possible_index_moves Map.empty, sorted_list_of_set,
      5, replicate 16 False, [], {})"
proof -
  let ?u = "(replicate 16 False)[5 := True]"
  let ?avail = "filter (\<lambda>m. \<not> ?u ! nat (5 + m)) (sorted_list_of_set (get_possible_index_moves 5))"
  have fin: "finite (get_possible_index_moves 5)"
    unfolding index_moves_eq by simp
  have s: "setitem (replicate 16 False) 5 True = Inr ?u"
    by (simp add: setitem_def py_index_def)
  have p: "build_possible_index_moves Map.empty 5 = Some (get_possible_index_moves 5)"
    by (simp add: build_possible_index_moves_apply)
  have a: "available_moves ?u 5 (sorted_list_of_set (get_possible_index_moves 5)) = Inr ?avail"
    by (rule available_moves_filter) (use fin in \<open>auto simp: moves_iff\<close>)
  have c: "check_path example_board Map.empty ([] @ [5]) {} = Inr (True, {})"
    by (simp add: check_path_def)
  have "(1::int) \<in> get_possible_index_moves 5"
    by (simp add: moves_iff possible_moves_def)
  with fin have m: "1 \<in> set ?avail"
    by simp
  from length_pos_if_in_set [OF m] have "?avail \<noteq> []"
    by (simp only: length_greater_0_conv simp_thms)
  then have ne: "True \<and> ?avail \<noteq> []"
    by (rule conjI [OF TrueI])
  from find_words_rel.intros [of "replicate 16 False" 5 ?u "build_possible_index_moves Map.empty"
      "get_possible_index_moves 5" sorted_list_of_set ?avail example_board Map.empty "[]" "{}"
      "(True, {})" True "{}" 1 "{}", OF s p a c refl ne m]
  show ?thesis
    by simp
qed

theorem find_words_terminates_witness:
  "find_words_rel
     (example_board, Map.empty, build_possible_index_moves Map.empty, sorted_list_of_set,
      6, (replicate 16 False)[5 := True], [5], {})
     (example_board, Map.empty, build_possible_index_moves Map.empty, sorted_list_of_set,
      5, replicate 16 False, [], {}) \<and>
   setitem (replicate 16 False) 5 True = Inr ((replicate 16 False)[5 := True]) \<and>
   getitem ((replicate 16 False)[5 := True]) 6 = Inr False \<and>
   (\<exists>u'. setitem ((replicate 16 False)[5 := True]) 6 True = Inr u' \<and>
      length (filter Not u') < length (filter Not ((replicate 16 False)[5 := True]))) \<and>
   (find_words_rel ^^ 1)
     (example_board, Map.empty, build_possible_index_moves Map.empty, sorted_list_of_set,
      6, (replicate 16 False)[5 := True], [5], {})
     (example_board, Map.empty, build_possible_index_moves Map.empty, sorted_list_of_set,
      5, replicate 16 False, [], {}) \<and>
   (1::nat) < 16 \<and>
   iterates (sorted_list_of_set :: int set \<Rightarrow> int list) \<and> (0::int) \<le> 5 \<and> (5::int) \<le> 15 \<and>
   card {(index', used', path'). \<exists>fw'.
     find_words_rel
       (example_board, Map.empty, build_possible_index_moves Map.empty, sorted_list_of_set,
        index', used', path', fw')
       (example_board, Map.empty, build_possible_index_moves Map.empty, sorted_list_of_set,
        5, replicate 16 False, [], {})} \<le> 8"
proof -
  note step = find_words_terminates [THEN conjunct2, THEN conjunct1, rule_format]
    and depth = find_words_terminates [THEN conjunct2, THEN conjunct2, THEN conjunct1, rule_format]
    and branching = find_words_terminates [THEN conjunct2, THEN conjunct2, THEN conjunct2,
      rule_format]
  note call = example_call
  from step [OF call]
  have "setitem (replicate 16 False) 5 True = Inr ((replicate 16 False)[5 := True])"
    "getitem ((replicate 16 False)[5 := True]) 6 = Inr False"
    "\<exists>u'. setitem ((replicate 16 False)[5 := True]) 6 True = Inr u' \<and>
      length (filter Not u') < length (filter Not ((replicate 16 False)[5 := True]))"
    by blast+
  moreover from call have one: "(find_words_rel ^^ 1)
     (example_board, Map.empty, build_possible_index_moves Map.empty, sorted_list_of_set,
      6, (replicate 16 False)[5 := True], [5], {})
     (example_board, Map.empty, build_possible_index_moves Map.empty, sorted_list_of_set,
      5, replicate 16 False, [], {})"
    by (simp only: relpowp_1)
  moreover from depth [OF one] have "(1::nat) < 16" .
  moreover have h: "iterates (sorted_list_of_set :: int set \<Rightarrow> int list) \<and> (0::int) \<le> 5 \<and> (5::int) \<le> 15"
    by (simp add: iterates_sorted_list_of_set)
  moreover from branching [OF h, of example_board Map.empty Map.empty "replicate 16 False" "[]" "{}"]
  have "card {(index', used', path'). \<exists>fw'.
     find_words_rel
       (example_board, Map.empty, build_possible_index_moves Map.empty, sorted_list_of_set,
        index', used', path', fw')
       (example_board, Map.empty, build_possible_index_moves Map.empty, sorted_list_of_set,
        5, replicate 16 False, [], {})} \<le> 8"
    by (rule conjunct2)
  ultimately show ?thesis
    using call by blast
qed

section \<open>The filter and the index on every word list\<close>

lemma append_words_error:
  assumes "append_words vw ws = Inl e" and "\<forall>w\<in>set ws. 2 \<le> length w"
  shows "e = KeyError"
  using assms
proof (induction ws arbitrary: vw)
  case Nil
  then show ?case by simp
next
  case (Cons word ws)
  from Cons.prems(2) have len: "2 \<le> length word" and rest: "\<forall>w\<in>set ws. 2 \<le> length w"
    by simp_all
  from Cons.prems(1) Cons.IH [OF _ rest] show ?case
    by (auto simp: getitem_0 [OF len] getitem_1 [OF len] split: option.splits
        simp del: One_nat_def)
qed

lemma survivor_letter:
  assumes "w \<in> set (unsorted_valid_words board (dict_words text))" and "c \<in> set w"
  shows "c \<in> set (present_letters board) \<longleftrightarrow> c \<in> set alphabet"
  using assms by (auto simp: unsorted_valid_words_iff set_present_letters)

lemma load_dictionary_built_iff:
  assumes "files os dict_file = Some text"
  shows "(\<exists>vw. load_dictionary os dict_file board = Inr vw) \<longleftrightarrow>
           (\<forall>w\<in>set (unsorted_valid_words board (dict_words text)).
              w ! 0 \<in> set alphabet \<and> w ! 1 \<in> set alphabet)"
proof -
  let ?W = "unsorted_valid_words board (dict_words text)"
  let ?P = "present_letters board"
  have len: "\<forall>w\<in>set ?W. 2 \<le> length w"
    by (auto simp: unsorted_valid_words_iff)
  have first_two: "(w ! 0 \<in> set ?P \<and> w ! 1 \<in> set ?P) \<longleftrightarrow>
                   (w ! 0 \<in> set alphabet \<and> w ! 1 \<in> set alphabet)" if "w \<in> set ?W" for w
  proof -
    from len that have "w ! 0 \<in> set w" "w ! 1 \<in> set w"
      using first_two_in_set [of w] by auto
    with survivor_letter [OF that] show ?thesis
      by blast
  qed
  have load: "load_dictionary os dict_file board = append_words (empty_valid_words ?P) ?W"
    using assms by (simp add: load_dictionary_def)
  show ?thesis
  proof
    assume "\<exists>vw. load_dictionary os dict_file board = Inr vw"
    then obtain vw where "append_words (empty_valid_words ?P) ?W = Inr vw"
      unfolding load by blast
    from append_words_keys [OF this len]
    have "\<forall>w\<in>set ?W. w ! 0 \<in> set ?P \<and> w ! 1 \<in> set ?P"
      by (auto simp: lookup2_empty_valid_words split: if_splits simp del: One_nat_def)
    with first_two show "\<forall>w\<in>set ?W. w ! 0 \<in> set alphabet \<and> w ! 1 \<in> set alphabet"
      by blast
  next
    assume "\<forall>w\<in>set ?W. w ! 0 \<in> set alphabet \<and> w ! 1 \<in> set alphabet"
    with first_two have "\<forall>w\<in>set ?W. w ! 0 \<in> set ?P \<and> w ! 1 \<in> set ?P"
      by blast
    with len have "\<forall>w\<in>set ?W. 2 \<le> length w \<and>
        lookup2 (empty_valid_words ?P) (w ! 0) (w ! 1) \<noteq> None"
      by (simp add: lookup2_empty_valid_words del: One_nat_def)
    from append_words_lookup2 [OF this]
    show "\<exists>vw. load_dictionary os dict_file board = Inr vw"
      unfolding load by blast
  qed
qed

lemma load_dictionary_in_index:
  assumes "files os dict_file = Some text" and "load_dictionary os dict_file board = Inr vw"
  shows "in_index vw w \<longleftrightarrow> w \<in> set (unsorted_valid_words board (dict_words text))"
proof -
  let ?W = "unsorted_valid_words board (dict_words text)"
  from load_dictionary_success [OF assms(2)] assms(1)
  have idx: "indexes vw (set (present_letters board)) ?W"
    by auto
  have len: "\<forall>w\<in>set ?W. 2 \<le> length w"
    by (auto simp: unsorted_valid_words_iff)
  from assms(2) load_dictionary_built_iff [OF assms(1), of board]
  have letters: "\<forall>w\<in>set ?W. w ! 0 \<in> set alphabet \<and> w ! 1 \<in> set alphabet"
    by blast
  have "\<forall>w\<in>set ?W. 2 \<le> length w \<and> w ! 0 \<in> set (present_letters board) \<and>
          w ! 1 \<in> set (present_letters board)"
  proof
    fix w assume w: "w \<in> set ?W"
    with len have "w ! 0 \<in> set w" "w ! 1 \<in> set w"
      using first_two_in_set [of w] by auto
    with survivor_letter [OF w] letters w len
    show "2 \<le> length w \<and> w ! 0 \<in> set (present_letters board) \<and>
          w ! 1 \<in> set (present_letters board)"
      by blast
  qed
  from in_index_indexes [OF idx this] show ?thesis .
qed

text \<open>
  C4, as amended. For every dictionary file and every board, a (stripped) line of the
  file passes the filter exactly when its length is 3 to 17 and each of its letters a
  to z is on the board, u counting as on the board when q is. The index is built
  exactly when the first two characters of every word that passes are letters a to z;
  otherwise building it raises KeyError. Whenever the index is built, a word is in it
  exactly when it passes the filter. On a file whose words use only the letters a to z
  the index is always built.
\<close>

theorem dictionary_filter_membership:
  assumes "files os dict_file = Some text"
  shows "(\<forall>w. w \<in> set (unsorted_valid_words board (dict_words text)) \<longleftrightarrow>
              w \<in> set (map strip (file_lines text)) \<and> 3 \<le> length w \<and> length w \<le> 17 \<and>
              (\<forall>c\<in>set w. c \<in> set alphabet \<longrightarrow>
                 c \<in> set board \<or> (c = CHR ''u'' \<and> CHR ''q'' \<in> set board))) \<and>
         ((\<exists>vw. load_dictionary os dict_file board = Inr vw) \<longleftrightarrow>
            (\<forall>w\<in>set (unsorted_valid_words board (dict_words text)).
               w ! 0 \<in> set alphabet \<and> w ! 1 \<in> set alphabet)) \<and>
         (\<forall>e. load_dictionary os dict_file board = Inl e \<longrightarrow> e = KeyError) \<and>
         (\<forall>vw w. load_dictionary os dict_file board = Inr vw \<longrightarrow>
            (in_index vw w \<longleftrightarrow>
               w \<in> set (map strip (file_lines text)) \<and> 3 \<le> length w \<and> length w \<le> 17 \<and>
               (\<forall>c\<in>set w. c \<in> set alphabet \<longrightarrow>
                  c \<in> set board \<or> (c = CHR ''u'' \<and> CHR ''q'' \<in> set board)))) \<and>
         (lowercase_words text \<longrightarrow>
            (\<exists>vw. load_dictionary os dict_file board = Inr vw \<and>
               (\<forall>w. in_index vw w \<longleftrightarrow>
                  w \<in> set (map strip (file_lines text)) \<and> 3 \<le> length w \<and> length w \<le> 17 \<and>
                  (\<forall>c\<in>set w. c \<in> set board \<or> (c = CHR ''u'' \<and> CHR ''q'' \<in> set board)))))"
proof -
  let ?W = "unsorted_valid_words board (dict_words text)"
  have passes: "\<forall>w. w \<in> set ?W \<longleftrightarrow>
              w \<in> set (map strip (file_lines text)) \<and> 3 \<le> length w \<and> length w \<le> 17 \<and>
              (\<forall>c\<in>set w. c \<in> set alphabet \<longrightarrow>
                 c \<in> set board \<or> (c = CHR ''u'' \<and> CHR ''q'' \<in> set board))"
    by (intro allI) (rule unsorted_valid_words_iff)
  note built = load_dictionary_built_iff [OF assms, of board]
  have raises: "\<forall>e. load_dictionary os dict_file board = Inl e \<longrightarrow> e = KeyError"
  proof (intro allI impI)
    fix e assume "load_dictionary os dict_file board = Inl e"
    with assms have "append_words (empty_valid_words (present_letters board)) ?W = Inl e"
      by (simp add: load_dictionary_def)
    moreover have "\<forall>w\<in>set ?W. 2 \<le> length w"
      by (auto simp: unsorted_valid_words_iff)
    ultimately show "e = KeyError"
      by (rule append_words_error)
  qed
  have held: "\<forall>vw w. load_dictionary os dict_file board = Inr vw \<longrightarrow>
            (in_index vw w \<longleftrightarrow>
               w \<in> set (map strip (file_lines text)) \<and> 3 \<le> length w \<and> length w \<le> 17 \<and>
               (\<forall>c\<in>set w. c \<in> set alphabet \<longrightarrow>
                  c \<in> set board \<or> (c = CHR ''u'' \<and> CHR ''q'' \<in> set board)))"
    using load_dictionary_in_index [OF assms] passes by blast
  have lower: "lowercase_words text \<longrightarrow>
            (\<exists>vw. load_dictionary os dict_file board = Inr vw \<and>
               (\<forall>w. in_index vw w \<longleftrightarrow>
                  w \<in> set (map strip (file_lines text)) \<and> 3 \<le> length w \<and> length w \<le> 17 \<and>
                  (\<forall>c\<in>set w. c \<in> set board \<or> (c = CHR ''u'' \<and> CHR ''q'' \<in> set board))))"
  proof
    assume low: "lowercase_words text"
    from load_dictionary_indexes [OF assms low, of board] obtain vw where
      vw: "load_dictionary os dict_file board = Inr vw"
      by blast
    have "in_index vw w \<longleftrightarrow>
            w \<in> set (map strip (file_lines text)) \<and> 3 \<le> length w \<and> length w \<le> 17 \<and>
            (\<forall>c\<in>set w. c \<in> set board \<or> (c = CHR ''u'' \<and> CHR ''q'' \<in> set board))" for w
      unfolding load_dictionary_in_index [OF assms vw] unsorted_valid_words_iff
      using low unfolding lowercase_words_def by auto
    with vw show "\<exists>vw. load_dictionary os dict_file board = Inr vw \<and>
               (\<forall>w. in_index vw w \<longleftrightarrow>
                  w \<in> set (map strip (file_lines text)) \<and> 3 \<le> length w \<and> length w \<le> 17 \<and>
                  (\<forall>c\<in>set w. c \<in> set board \<or> (c = CHR ''u'' \<and> CHR ''q'' \<in> set board)))"
      by blast
  qed
  from passes built raises held lower show ?thesis
    by (intro conjI)
qed


lemma trailing_file: "files example_os ''trailing.txt'' = Some ''ab-\<newline>bcd\<newline>abc\<newline>''"
  by (simp add: example_os_def)

lemma trailing_lines: "map strip (file_lines ''ab-\<newline>bcd\<newline>abc\<newline>'') = [''ab-'', ''bcd'', ''abc'']"
  by (simp add: strip_def isspace_def)

lemma trailing_valid_words:
  "unsorted_valid_words ''abcdefghijklmnop'' (dict_words ''ab-\<newline>bcd\<newline>abc\<newline>'') = [''ab-'', ''bcd'', ''abc'']"
  unfolding dict_words_def trailing_lines
  by (simp add: unsorted_valid_words_def remove_words_eq missing_letters_def alphabet_def)

theorem dictionary_filter_membership_witness:
  "files example_os ''trailing.txt'' = Some ''ab-\<newline>bcd\<newline>abc\<newline>'' \<and>
   \<not> lowercase_words ''ab-\<newline>bcd\<newline>abc\<newline>'' \<and>
   unsorted_valid_words ''abcdefghijklmnop'' (dict_words ''ab-\<newline>bcd\<newline>abc\<newline>'') =
     [''ab-'', ''bcd'', ''abc''] \<and>
   (\<exists>vw. load_dictionary example_os ''trailing.txt'' ''abcdefghijklmnop'' = Inr vw \<and>
      in_index vw ''ab-'' \<and> in_index vw ''abc'' \<and> in_index vw ''bcd'' \<and>
      \<not> in_index vw ''abq'' \<and>
      \<not> in_index vw ''ab'')"
proof -
  note t = dictionary_filter_membership [OF trailing_file, of "''abcdefghijklmnop''"]
  note built = t [THEN conjunct2, THEN conjunct1]
    and held = t [THEN conjunct2, THEN conjunct2, THEN conjunct2, THEN conjunct1, rule_format]
  have "\<forall>w\<in>set (unsorted_valid_words ''abcdefghijklmnop'' (dict_words ''ab-\<newline>bcd\<newline>abc\<newline>'')).
          w ! 0 \<in> set alphabet \<and> w ! 1 \<in> set alphabet"
    unfolding trailing_valid_words by (simp add: alphabet_def)
  with built obtain vw where
    vw: "load_dictionary example_os ''trailing.txt'' ''abcdefghijklmnop'' = Inr vw"
    by blast
  have "in_index vw ''ab-''" "in_index vw ''abc''" "in_index vw ''bcd''" "\<not> in_index vw ''abq''"
    "\<not> in_index vw ''ab''"
    unfolding held [OF vw] trailing_lines by (simp_all add: alphabet_def)
  moreover have "\<not> lowercase_words ''ab-\<newline>bcd\<newline>abc\<newline>''"
    unfolding lowercase_words_def using trailing_lines by (auto simp: alphabet_def)
  ultimately show ?thesis
    using vw trailing_file trailing_valid_words by blast
qed

theorem dictionary_filter_counterexample:
  "valid_board ''abcdefghijklmnop'' \<and>
   files example_os ''hyphen.txt'' = Some ''a-b\<newline>abc\<newline>'' \<and>
   map strip (file_lines ''a-b\<newline>abc\<newline>'') = [''a-b'', ''abc''] \<and>
   unsorted_valid_words ''abcdefghijklmnop'' (dict_words ''a-b\<newline>abc\<newline>'') = [''a-b'', ''abc''] \<and>
   load_dictionary example_os ''hyphen.txt'' ''abcdefghijklmnop'' = Inl KeyError"
proof -
  have l: "map strip (file_lines ''a-b\<newline>abc\<newline>'') = [''a-b'', ''abc'']"
    by (simp add: strip_def isspace_def)
  have p: "present_letters ''abcdefghijklmnop'' = ''abcdefghijklmnop''"
    by (simp add: present_letters_def missing_letters_def alphabet_def)
  have u: "unsorted_valid_words ''abcdefghijklmnop'' (dict_words ''a-b\<newline>abc\<newline>'') = [''a-b'', ''abc'']"
    unfolding dict_words_def l
    by (simp add: unsorted_valid_words_def remove_words_eq missing_letters_def alphabet_def)
  have "load_dictionary example_os ''hyphen.txt'' ''abcdefghijklmnop'' = Inl KeyError"
    by (simp add: load_dictionary_def example_os_def u p empty_valid_words_apply
          getitem_def py_index_def)
  with l u show ?thesis
    by (simp add: valid_board_def alphabet_def example_os_def)
qed

section \<open>The search on every dictionary that loads\<close>

lemma loaded_search_setup:
  assumes "valid_board board" and "load_dictionary os dict_file board = Inr vw"
    and "iterates iter"
  shows "\<exists>dtext. files os dict_file = Some dtext \<and>
           search_setup board vw (unsorted_valid_words board (dict_words dtext))
             (build_possible_index_moves cache) iter"
proof -
  from load_dictionary_success [OF assms(2)] obtain dtext where
    f: "files os dict_file = Some dtext"
    and idx: "indexes vw (set (present_letters board))
                (unsorted_valid_words board (dict_words dtext))"
    by blast
  have "\<forall>w\<in>set (unsorted_valid_words board (dict_words dtext)). 3 \<le> length w"
    by (auto simp: unsorted_valid_words_iff)
  with assms(1,3) idx build_table
  have "search_setup board vw (unsorted_valid_words board (dict_words dtext))
          (build_possible_index_moves cache) iter"
    unfolding search_setup_def by blast
  with f show ?thesis
    by blast
qed

lemma spell_letters:
  assumes "valid_board board" and "set path \<subseteq> {0..15}"
  shows "set (spell board path) \<subseteq> set (present_letters board)"
  using assms(2) cell_letters [OF assms(1)]
  by (fastforce simp: spell_def)

text \<open>
  C5. The string that \<open>_find_words\<close> accumulates for a path is the concatenation, cell
  by cell, of the letter of the cell, or of "qu" where the cell holds q. Its length is
  the length of the path plus the number of q cells visited, so it is longer than the
  path as soon as a q cell is visited. It is this string that is scored: on a path other
  than a single cell, the prefix test runs over the bucket of this string, and the set
  of found words gains this string, and nothing else, exactly when the string has more
  than two characters and is in that bucket. With a loaded dictionary and a path of at
  least two cells, the path counts as the start of a word exactly when some filtered
  word starts with this string, and this string is recorded exactly when it is a
  filtered word.
\<close>

theorem digraph_rule:
  assumes "length board = 16" and "set path \<subseteq> {0..15}"
  shows "cur_word board path [] =
           Inr (concat (map (\<lambda>pos. if board ! nat pos = CHR ''q'' then ''qu''
                                     else [board ! nat pos]) path)) \<and>
         cur_word board path [] = Inr (spell board path) \<and>
         length (spell board path) =
           length path + length (filter (\<lambda>pos. board ! nat pos = CHR ''q'') path) \<and>
         ((\<exists>pos\<in>set path. board ! nat pos = CHR ''q'') \<longrightarrow>
            length path < length (spell board path)) \<and>
         (\<forall>vw fw. length path \<noteq> 1 \<longrightarrow>
            check_path board vw path fw =
              (case bucket vw (spell board path) of
                 Inl e \<Rightarrow> Inl e
               | Inr b \<Rightarrow>
                   Inr (list_ex (\<lambda>word. startswith word (spell board path)) b,
                        if 2 < length (spell board path) \<and> spell board path \<in> set b
                        then insert (spell board path) fw else fw))) \<and>
         (\<forall>os dict_file vw fw.
            valid_board board \<and> load_dictionary os dict_file board = Inr vw \<and>
            2 \<le> length path \<longrightarrow>
            (\<exists>dtext. files os dict_file = Some dtext \<and>
               check_path board vw path fw =
                 Inr ((\<exists>w\<in>set (unsorted_valid_words board (dict_words dtext)).
                         startswith w (spell board path)),
                      if spell board path \<in> set (unsorted_valid_words board (dict_words dtext))
                      then insert (spell board path) fw else fw)))"
proof -
  have "\<forall>pos\<in>set path. 0 \<le> pos \<and> pos < int (length board)"
    using assms by auto
  from cur_word_spell [OF this, of "[]"]
  have cw: "cur_word board path [] = Inr (spell board path)"
    by simp
  have "(\<exists>pos\<in>set path. board ! nat pos = CHR ''q'') \<longrightarrow>
          0 < length (filter (\<lambda>pos. board ! nat pos = CHR ''q'') path)"
    by (auto simp: filter_empty_conv)
  then have longer: "(\<exists>pos\<in>set path. board ! nat pos = CHR ''q'') \<longrightarrow>
      length path < length (spell board path)"
    unfolding length_spell by simp
  have "spell board path =
          concat (map (\<lambda>pos. if board ! nat pos = CHR ''q'' then ''qu''
                              else [board ! nat pos]) path)"
    unfolding spell_def cell_def ..
  then have explicit: "cur_word board path [] =
          Inr (concat (map (\<lambda>pos. if board ! nat pos = CHR ''q'' then ''qu''
                              else [board ! nat pos]) path))"
    using cw by simp
  have scored: "\<forall>vw fw. length path \<noteq> 1 \<longrightarrow>
            check_path board vw path fw =
              (case bucket vw (spell board path) of
                 Inl e \<Rightarrow> Inl e
               | Inr b \<Rightarrow>
                   Inr (list_ex (\<lambda>word. startswith word (spell board path)) b,
                        if 2 < length (spell board path) \<and> spell board path \<in> set b
                        then insert (spell board path) fw else fw))"
    unfolding check_path_def cw
    by (auto simp: Let_def split: sum.splits)
  have loaded: "\<forall>os dict_file vw fw.
            valid_board board \<and> load_dictionary os dict_file board = Inr vw \<and>
            2 \<le> length path \<longrightarrow>
            (\<exists>dtext. files os dict_file = Some dtext \<and>
               check_path board vw path fw =
                 Inr ((\<exists>w\<in>set (unsorted_valid_words board (dict_words dtext)).
                         startswith w (spell board path)),
                      if spell board path \<in> set (unsorted_valid_words board (dict_words dtext))
                      then insert (spell board path) fw else fw))"
  proof (intro allI impI)
    fix os dict_file vw fw
    assume h: "valid_board board \<and> load_dictionary os dict_file board = Inr vw \<and>
            2 \<le> length path"
    from load_dictionary_success [of os dict_file board vw] h obtain dtext where
      f: "files os dict_file = Some dtext"
      and idx: "indexes vw (set (present_letters board))
                  (unsorted_valid_words board (dict_words dtext))"
      by blast
    have long: "\<forall>w\<in>set (unsorted_valid_words board (dict_words dtext)). 3 \<le> length w"
      by (auto simp: unsorted_valid_words_iff)
    from h have "valid_board board" "2 \<le> length path"
      by simp_all
    from check_path_indexes [OF this(1) idx long assms(2) this(2), of fw] f
    show "\<exists>dtext. files os dict_file = Some dtext \<and>
               check_path board vw path fw =
                 Inr ((\<exists>w\<in>set (unsorted_valid_words board (dict_words dtext)).
                         startswith w (spell board path)),
                      if spell board path \<in> set (unsorted_valid_words board (dict_words dtext))
                      then insert (spell board path) fw else fw)"
      by blast
  qed
  from explicit cw length_spell [of board path] longer scored loaded show ?thesis
    by (intro conjI)
qed

theorem digraph_rule_witness:
  "length example_board = 16 \<and> set [5, 6, 2] \<subseteq> {0..15::int} \<and>
   CHR ''u'' \<notin> set example_board \<and> example_board ! nat 5 = CHR ''q'' \<and>
   cur_word example_board [5, 6, 2] [] = Inr ''quiv'' \<and>
   spell example_board [5, 6, 2] = ''quiv'' \<and>
   length [5, 6, 2 :: int] < length (spell example_board [5, 6, 2]) \<and>
   valid_board example_board \<and> 2 \<le> length [5, 6, 2 :: int] \<and>
   (\<exists>vw. load_dictionary example_os ''data/dictionary.txt'' example_board = Inr vw \<and>
      check_path example_board vw [5, 6, 2] {} = Inr (True, {''quiv''}) \<and>
      check_path example_board vw [5, 6] {} = Inr (True, {}))"
proof -
  have h: "length example_board = 16" "set [5, 6, 2] \<subseteq> {0..15::int}"
    by (simp_all add: example_board_def)
  have h2: "length example_board = 16" "set [5, 6] \<subseteq> {0..15::int}"
    by (simp_all add: example_board_def)
  have s: "spell example_board [5, 6, 2] = ''quiv''" "spell example_board [5, 6] = ''qui''"
    by (simp_all add: spell_def example_cell)
  have q: "\<exists>pos\<in>set [5, 6, 2 :: int]. example_board ! nat pos = CHR ''q''"
    "example_board ! nat 5 = CHR ''q''" "CHR ''u'' \<notin> set example_board"
    by (simp_all add: example_board_def)
  note t = digraph_rule [OF h]
  from t have c: "cur_word example_board [5, 6, 2] [] = Inr (spell example_board [5, 6, 2])"
    by blast
  from t q(1) have l: "length [5, 6, 2 :: int] < length (spell example_board [5, 6, 2])"
    by blast
  from example_run [of Map.empty] obtain vw where
    vw: "load_dictionary example_os ''data/dictionary.txt'' example_board = Inr vw"
    by blast
  have two: "2 \<le> length [5, 6, 2 :: int]" "2 \<le> length [5, 6 :: int]"
    by simp_all
  note loaded = digraph_rule [OF h, THEN conjunct2, THEN conjunct2, THEN conjunct2,
      THEN conjunct2, THEN conjunct2, rule_format, OF conjI [OF example_valid conjI [OF vw two(1)]]]
    and loaded2 = digraph_rule [OF h2, THEN conjunct2, THEN conjunct2, THEN conjunct2,
      THEN conjunct2, THEN conjunct2, rule_format, OF conjI [OF example_valid conjI [OF vw two(2)]]]
  from loaded [of "{}"] example_file
  have c1: "check_path example_board vw [5, 6, 2] {} = Inr (True, {''quiv''})"
    unfolding s by (auto simp: example_valid_words startswith_def)
  from loaded2 [of "{}"] example_file
  have c2: "check_path example_board vw [5, 6] {} = Inr (True, {})"
    unfolding s by (auto simp: example_valid_words startswith_def)
  from h q(2,3) s(1) c [unfolded s] l example_valid two(1) vw c1 c2 show ?thesis
    by blast
qed

text \<open>
  C6. On a validated board and any dictionary that loads, the output lists the set of
  found words in strictly increasing order of the byte-wise lexicographic order of
  strings, so no word occurs twice.
\<close>

theorem output_strictly_sorted:
  assumes "valid_board board" and "load_dictionary os dict_file board = Inr vw"
    and "iterates iter" and "iterates list_of"
  shows "\<exists>found ws.
           found_words_from board vw (build_possible_index_moves cache) iter [0..15] {} =
             Inr found \<and>
           out_words board vw (build_possible_index_moves cache) iter list_of = Inr ws \<and>
           set ws = found \<and> sorted_wrt (<) ws \<and> distinct ws"
proof -
  from loaded_search_setup [OF assms(1,2,3), of cache] obtain dtext where
    ss: "search_setup board vw (unsorted_valid_words board (dict_words dtext))
           (build_possible_index_moves cache) iter"
    by blast
  let ?F = "{w \<in> set (unsorted_valid_words board (dict_words dtext)). traceable board w}"
  have "set (sorted_list_of_set ?F) = ?F" "sorted_wrt (<) (sorted_list_of_set ?F)"
    "distinct (sorted_list_of_set ?F)"
    by simp_all
  with found_words_traceable [OF ss] out_words_traceable [OF ss assms(4)] show ?thesis
    by blast
qed

lemma plain_valid: "valid_board ''abcdefghijklmnop''"
  by (simp add: valid_board_def alphabet_def)

lemma plain_cell:
  assumes "0 \<le> pos" and "pos \<le> 15"
  shows "cell ''abcdefghijklmnop'' pos = [''abcdefghijklmnop'' ! nat pos]"
  using range16 [OF assms]
  by (elim disjE) (simp_all add: cell_def)

lemma trailing_found:
  "{w \<in> set (unsorted_valid_words ''abcdefghijklmnop''
                (dict_words ''ab-\<newline>bcd\<newline>abc\<newline>'')).
      traceable ''abcdefghijklmnop'' w} = {''bcd'', ''abc''}"
proof -
  have "simple_path [0, 1, 2]" "simple_path [1, 2, 3]"
    by (simp_all add: simple_path_def adjacent_def moves_iff possible_moves_def)
  moreover have "spell ''abcdefghijklmnop'' [0, 1, 2] = ''abc''"
    "spell ''abcdefghijklmnop'' [1, 2, 3] = ''bcd''"
    by (simp_all add: spell_def plain_cell)
  ultimately have yes: "traceable ''abcdefghijklmnop'' ''abc''"
    "traceable ''abcdefghijklmnop'' ''bcd''"
    unfolding traceable_def by blast+
  have no: "\<not> traceable ''abcdefghijklmnop'' ''ab-''"
  proof
    assume "traceable ''abcdefghijklmnop'' ''ab-''"
    then obtain path where "set path \<subseteq> {0..15}" "spell ''abcdefghijklmnop'' path = ''ab-''"
      by (auto simp: traceable_def simple_path_def)
    with spell_letters [OF plain_valid, of path]
    have "CHR ''-'' \<in> set (present_letters ''abcdefghijklmnop'')"
      by auto
    then show False
      by (simp add: set_present_letters alphabet_def)
  qed
  from yes no show ?thesis
    unfolding trailing_valid_words by auto
qed

lemma trailing_sorted: "sorted_list_of_set {''bcd'', ''abc''} = [''abc'', ''bcd'']"
  by code_simp

theorem output_strictly_sorted_witness:
  "valid_board ''abcdefghijklmnop'' \<and>
   iterates (sorted_list_of_set :: int set \<Rightarrow> int list) \<and>
   iterates (rev \<circ> sorted_list_of_set :: string set \<Rightarrow> string list) \<and>
   \<not> lowercase_words ''ab-\<newline>bcd\<newline>abc\<newline>'' \<and>
   (\<exists>vw. load_dictionary example_os ''trailing.txt'' ''abcdefghijklmnop'' = Inr vw \<and>
      found_words_from ''abcdefghijklmnop'' vw (build_possible_index_moves Map.empty)
        sorted_list_of_set [0..15] {} = Inr {''bcd'', ''abc''} \<and>
      out_words ''abcdefghijklmnop'' vw (build_possible_index_moves Map.empty)
        sorted_list_of_set (rev \<circ> sorted_list_of_set) = Inr [''abc'', ''bcd'']) \<and>
   sorted_wrt (<) [''abc'', ''bcd''] \<and> distinct [''abc'', ''bcd'']"
proof -
  let ?B = "''abcdefghijklmnop''"
  note iti = iterates_sorted_list_of_set [where 'a = int]
    and its = iterates_rev_sorted_list_of_set [where 'a = string]
  have "\<forall>w\<in>set (unsorted_valid_words ?B (dict_words ''ab-\<newline>bcd\<newline>abc\<newline>'')).
          w ! 0 \<in> set alphabet \<and> w ! 1 \<in> set alphabet"
    unfolding trailing_valid_words by (simp add: alphabet_def)
  with load_dictionary_built_iff [OF trailing_file, of ?B] obtain vw where
    vw: "load_dictionary example_os ''trailing.txt'' ?B = Inr vw"
    by blast
  from output_strictly_sorted [OF plain_valid vw iti its, of Map.empty]
  obtain found ws where
    found: "found_words_from ?B vw (build_possible_index_moves Map.empty)
              sorted_list_of_set [0..15] {} = Inr found"
    and ws: "out_words ?B vw (build_possible_index_moves Map.empty)
               sorted_list_of_set (rev \<circ> sorted_list_of_set) = Inr ws"
    and sorted: "set ws = found" "sorted_wrt (<) ws" "distinct ws"
    by blast
  from loaded_search_setup [OF plain_valid vw iti, of Map.empty] trailing_file
  have ss: "search_setup ?B vw
              (unsorted_valid_words ?B (dict_words ''ab-\<newline>bcd\<newline>abc\<newline>''))
              (build_possible_index_moves Map.empty) sorted_list_of_set"
    by auto
  from out_words_traceable [OF ss its] ws have eq: "ws = [''abc'', ''bcd'']"
    unfolding trailing_found trailing_sorted by simp
  with sorted(1) have f: "found = {''bcd'', ''abc''}"
    by auto
  have low: "\<not> lowercase_words ''ab-\<newline>bcd\<newline>abc\<newline>''"
    unfolding lowercase_words_def using trailing_lines by (auto simp: alphabet_def)
  from plain_valid iti its low vw found [unfolded f] ws [unfolded eq] sorted(2,3) [unfolded eq]
  show ?thesis
    by blast
qed

end
